theory Spec2Isabelle
  imports Main
begin

section \<open>Data model\<close>

text \<open>
  The message table of convex-mq (\<^verbatim>\<open>src/component/schema.ts\<close>, and \<^verbatim>\<open>systemFields\<close> of
  \<^verbatim>\<open>src/client/table.ts\<close>): one document per message, with the fields below. The payload
  (component mode: the field \<^verbatim>\<open>payload\<close>; library mode: the user's own top-level fields) is
  opaque to the queue and is the type parameter \<open>'p\<close>. JavaScript numbers are modelled
  as unbounded integers.
\<close>

datatype status = Pending | Claimed

record 'p message =
  payload :: 'p
  status :: status
  attempts :: int
  maxAttempts :: int
  visibilityTimeoutMs :: int
  claimId :: "string option"

text \<open>
  A message id travels as a string. \<^verbatim>\<open>ctx.db.normalizeId("messages", s)\<close> returns the
  document id when \<^verbatim>\<open>s\<close> is a well-formed id of the table and \<^verbatim>\<open>null\<close> otherwise; the
  strings are therefore split into the well-formed ids (one per document number) and the
  rest.
\<close>

datatype id_string = IdOf nat | NotAnId string

fun normalizeId :: "id_string \<Rightarrow> nat option" where
  "normalizeId (IdOf i) = Some i"
| "normalizeId (NotAnId _) = None"

text \<open>
  The transactional state a mutation works on: the table, the scheduler's queue of
  \<^verbatim>\<open>runAfter(delay, reclaimStale, {messageId, claimId})\<close> calls, and the number of
  \<^verbatim>\<open>Math.random()\<close> draws made so far. The table is the sequence of all documents ever
  inserted, in insertion order; the position of a document is its id, and a deleted
  document leaves \<open>None\<close> behind (an id is never reused).
\<close>

record 'p mq_state =
  messages :: "'p message option list"
  scheduled :: "(int \<times> id_string \<times> string) list"
  draws :: nat

definition empty_state :: "'p mq_state" where
  "empty_state = \<lparr>messages = [], scheduled = [], draws = 0\<rparr>"

text \<open>
  The errors thrown by the queue functions, one constructor per \<^verbatim>\<open>throw new Error(...)\<close>
  message of the source, \<open>InsertFailed\<close> for a fault of \<^verbatim>\<open>ctx.db.insert\<close>, and
  \<open>NegativeDelay\<close> for the error of \<^verbatim>\<open>ctx.scheduler.runAfter\<close> on a negative delay.
\<close>

datatype mq_error =
    InvalidMessageId
  | MessageNotFound
  | CannotAck status
  | CannotNack status
  | ClaimExpired
  | InsertFailed
  | NegativeDelay

record 'p ClaimedMessage =
  cm_id :: id_string
  cm_claimId :: string
  cm_payload :: 'p
  cm_attempts :: int

record 'p ExhaustedMessage =
  ex_payload :: 'p
  ex_attempts :: int
  ex_error :: string

section \<open>The database primitives\<close>

definition db_get :: "'p mq_state \<Rightarrow> nat \<Rightarrow> 'p message option" where
  "db_get s i = (if i < length (messages s) then messages s ! i else None)"

text \<open>
  \<^verbatim>\<open>ctx.db.insert\<close> appends the document and returns its id. The storage layer may refuse
  a document (the parameter \<open>accepts\<close>); the insert then throws and writes nothing.
\<close>

definition db_insert ::
  "('p message \<Rightarrow> bool) \<Rightarrow> 'p mq_state \<Rightarrow> 'p message \<Rightarrow> (mq_error + nat) \<times> 'p mq_state" where
  "db_insert accepts s doc =
     (if accepts doc
      then (Inr (length (messages s)), s\<lparr>messages := messages s @ [Some doc]\<rparr>)
      else (Inl InsertFailed, s))"

text \<open>
  \<^verbatim>\<open>ctx.db.patch\<close> and \<^verbatim>\<open>ctx.db.delete\<close>. The source only ever patches or deletes a document
  it has just read; on a missing document the model leaves the table as it is.
\<close>

definition db_patch :: "'p mq_state \<Rightarrow> nat \<Rightarrow> ('p message \<Rightarrow> 'p message) \<Rightarrow> 'p mq_state" where
  "db_patch s i f =
     (case db_get s i of
        None \<Rightarrow> s
      | Some m \<Rightarrow> s\<lparr>messages := (messages s)[i := Some (f m)]\<rparr>)"

definition db_delete :: "'p mq_state \<Rightarrow> nat \<Rightarrow> 'p mq_state" where
  "db_delete s i = s\<lparr>messages := (messages s)[i := None]\<rparr>"

text \<open>The documents of the table in insertion order, and the index \<^verbatim>\<open>by_status\<close>.\<close>

definition documents :: "'p mq_state \<Rightarrow> (nat \<times> 'p message) list" where
  "documents s =
     List.map_filter (\<lambda>i. map_option (Pair i) (db_get s i)) [0..<length (messages s)]"

definition by_status :: "status \<Rightarrow> 'p mq_state \<Rightarrow> (nat \<times> 'p message) list" where
  "by_status st s = filter (\<lambda>im. status (snd im) = st) (documents s)"

text \<open>
  \<^verbatim>\<open>ctx.scheduler.runAfter(delayMs, reclaimStale, {messageId, claimId})\<close> queues the call.
  The scheduler of the Convex runtime rejects a negative delay (delayMs must be
  non-negative): the call then throws and queues nothing.
\<close>

definition scheduler_runAfter ::
  "int \<Rightarrow> id_string \<Rightarrow> string \<Rightarrow> 'p mq_state \<Rightarrow> (mq_error + unit) \<times> 'p mq_state" where
  "scheduler_runAfter delayMs messageId cid s =
     (if delayMs < 0 then (Inl NegativeDelay, s)
      else (Inr (), s\<lparr>scheduled := scheduled s @ [(delayMs, messageId, cid)]\<rparr>))"

text \<open>
  Modelled from the spec: the wrapper \<^verbatim>\<open>mutation\<close> of \<^verbatim>\<open>_generated/server.js\<close> is not among
  the sources. The spec says that each lease protocol operation is a single atomic
  transaction against the message store, and the README that \<^verbatim>\<open>publishBatch\<close> publishes
  multiple messages atomically: the writes of a handler that returns are committed
  together, and the writes of a handler that throws are discarded.
\<close>

definition mutation ::
  "('s \<Rightarrow> (mq_error + 'a) \<times> 's) \<Rightarrow> 's \<Rightarrow> (mq_error + 'a) \<times> 's" where
  "mutation handler s =
     (case handler s of
        (Inl e, _) \<Rightarrow> (Inl e, s)
      | (Inr r, s') \<Rightarrow> (Inr r, s'))"

section \<open>Component mode\<close>

text \<open>
  The public functions of the component (\<^verbatim>\<open>publish\<close>, \<^verbatim>\<open>publishBatch\<close>, \<^verbatim>\<open>peek\<close>, \<^verbatim>\<open>claim\<close>,
  \<^verbatim>\<open>ack\<close>, \<^verbatim>\<open>nack\<close>, \<^verbatim>\<open>claimByIds\<close>) and its internal \<^verbatim>\<open>reclaimStale\<close>. Each is a
  \<^verbatim>\<open>mutation({handler})\<close>: the model has the handler, which returns its result or the error
  it throws together with the state it has reached, and the mutation made of it.

  \<^verbatim>\<open>generateClaimId\<close>: sixteen characters, each \<^verbatim>\<open>chars[Math.floor(Math.random() * chars.length)]\<close>.
  The random source is the parameter \<open>rnd\<close>: \<open>rnd k\<close> is the index drawn by the \<open>k\<close>-th
  call of \<^verbatim>\<open>Math.random\<close>, reduced into the range of the alphabet.
\<close>

definition random_chars :: "string \<Rightarrow> (nat \<Rightarrow> nat) \<Rightarrow> nat \<Rightarrow> string" where
  "random_chars chars rnd k = map (\<lambda>i. chars ! (rnd (k + i) mod length chars)) [0..<16]"

definition generateClaimId :: "(nat \<Rightarrow> nat) \<Rightarrow> nat \<Rightarrow> string" where
  "generateClaimId = random_chars ''abcdefghijklmnopqrstuvwxyz0123456789''"

text \<open>The arguments of \<^verbatim>\<open>publish\<close>: payload, \<^verbatim>\<open>maxAttempts?\<close>, \<^verbatim>\<open>visibilityTimeoutMs?\<close>.\<close>

type_synonym 'p publish_args = "'p \<times> int option \<times> int option"

definition new_message :: "'p publish_args \<Rightarrow> 'p message" where
  "new_message a =
     (case a of (p, ma, vt) \<Rightarrow>
        \<lparr>payload = p, status = Pending, attempts = 0,
         maxAttempts = (case ma of None \<Rightarrow> 3 | Some n \<Rightarrow> n),
         visibilityTimeoutMs = (case vt of None \<Rightarrow> 30000 | Some t \<Rightarrow> t),
         claimId = None\<rparr>)"

definition publish_handler ::
  "('p message \<Rightarrow> bool) \<Rightarrow> 'p publish_args \<Rightarrow> 'p mq_state \<Rightarrow> (mq_error + id_string) \<times> 'p mq_state" where
  "publish_handler accepts a s =
     (case db_insert accepts s (new_message a) of
        (Inl e, s') \<Rightarrow> (Inl e, s')
      | (Inr i, s') \<Rightarrow> (Inr (IdOf i), s'))"

definition publish ::
  "('p message \<Rightarrow> bool) \<Rightarrow> 'p publish_args \<Rightarrow> 'p mq_state \<Rightarrow> (mq_error + id_string) \<times> 'p mq_state" where
  "publish accepts a = mutation (publish_handler accepts a)"

fun publishBatch_loop ::
  "('p message \<Rightarrow> bool) \<Rightarrow> 'p publish_args list \<Rightarrow> id_string list \<Rightarrow> 'p mq_state
     \<Rightarrow> (mq_error + id_string list) \<times> 'p mq_state" where
  "publishBatch_loop accepts [] ids s = (Inr ids, s)"
| "publishBatch_loop accepts (a # as) ids s =
     (case db_insert accepts s (new_message a) of
        (Inl e, s') \<Rightarrow> (Inl e, s')
      | (Inr i, s') \<Rightarrow> publishBatch_loop accepts as (ids @ [IdOf i]) s')"

definition publishBatch_handler ::
  "('p message \<Rightarrow> bool) \<Rightarrow> 'p publish_args list \<Rightarrow> 'p mq_state
     \<Rightarrow> (mq_error + id_string list) \<times> 'p mq_state" where
  "publishBatch_handler accepts as s = publishBatch_loop accepts as [] s"

definition publishBatch ::
  "('p message \<Rightarrow> bool) \<Rightarrow> 'p publish_args list \<Rightarrow> 'p mq_state
     \<Rightarrow> (mq_error + id_string list) \<times> 'p mq_state" where
  "publishBatch accepts as = mutation (publishBatch_handler accepts as)"

definition peek :: "'p mq_state \<Rightarrow> bool" where
  "peek s = (case by_status Pending s of [] \<Rightarrow> False | first # _ \<Rightarrow> True)"

text \<open>
  The body of the loops of \<^verbatim>\<open>claim\<close> and \<^verbatim>\<open>claimByIds\<close> (the same statements in both): a
  fresh token, the patch, the scheduled \<^verbatim>\<open>reclaimStale\<close>, and the entry of the result.
  \<open>msg\<close> is the document as the loop read it. When the scheduler throws, the exception
  leaves the loop and the handler.
\<close>

definition claim_message ::
  "(nat \<Rightarrow> nat) \<Rightarrow> nat \<Rightarrow> 'p message \<Rightarrow> 'p mq_state
     \<Rightarrow> (mq_error + 'p ClaimedMessage) \<times> 'p mq_state" where
  "claim_message rnd i msg s =
     (let attempts' = attempts msg + 1;
          token = generateClaimId rnd (draws s);
          s1 = db_patch (s\<lparr>draws := draws s + 16\<rparr>) i
                 (\<lambda>m. m\<lparr>status := Claimed, attempts := attempts', claimId := Some token\<rparr>)
      in case scheduler_runAfter (visibilityTimeoutMs msg) (IdOf i) token s1 of
           (Inl e, s2) \<Rightarrow> (Inl e, s2)
         | (Inr _, s2) \<Rightarrow>
             (Inr \<lparr>cm_id = IdOf i, cm_claimId = token, cm_payload = payload msg,
                   cm_attempts = attempts'\<rparr>, s2))"

fun claim_loop ::
  "(nat \<Rightarrow> nat) \<Rightarrow> (nat \<times> 'p message) list \<Rightarrow> 'p ClaimedMessage list \<Rightarrow> 'p mq_state
     \<Rightarrow> (mq_error + 'p ClaimedMessage list) \<times> 'p mq_state" where
  "claim_loop rnd [] claimed s = (Inr claimed, s)"
| "claim_loop rnd ((i, msg) # pending) claimed s =
     (case claim_message rnd i msg s of
        (Inl e, s') \<Rightarrow> (Inl e, s')
      | (Inr c, s') \<Rightarrow> claim_loop rnd pending (claimed @ [c]) s')"

text \<open>
  \<^verbatim>\<open>claim\<close>: the limit is a natural number (what \<^verbatim>\<open>take\<close> is called with), 1 when omitted.
\<close>

definition claim_handler ::
  "(nat \<Rightarrow> nat) \<Rightarrow> nat option \<Rightarrow> 'p mq_state \<Rightarrow> (mq_error + 'p ClaimedMessage list) \<times> 'p mq_state" where
  "claim_handler rnd limit_arg s =
     (let limit = (case limit_arg of None \<Rightarrow> 1 | Some n \<Rightarrow> n);
          pending = take limit (by_status Pending s)
      in claim_loop rnd pending [] s)"

definition claim ::
  "(nat \<Rightarrow> nat) \<Rightarrow> nat option \<Rightarrow> 'p mq_state \<Rightarrow> (mq_error + 'p ClaimedMessage list) \<times> 'p mq_state" where
  "claim rnd limit_arg = mutation (claim_handler rnd limit_arg)"

definition ack_handler ::
  "id_string \<Rightarrow> string \<Rightarrow> 'p mq_state \<Rightarrow> (mq_error + unit) \<times> 'p mq_state" where
  "ack_handler messageId cid s =
     (case normalizeId messageId of
        None \<Rightarrow> (Inl InvalidMessageId, s)
      | Some i \<Rightarrow>
          (case db_get s i of
             None \<Rightarrow> (Inl MessageNotFound, s)
           | Some msg \<Rightarrow>
               if status msg \<noteq> Claimed then (Inl (CannotAck (status msg)), s)
               else if claimId msg \<noteq> Some cid then (Inl ClaimExpired, s)
               else (Inr (), db_delete s i)))"

definition ack :: "id_string \<Rightarrow> string \<Rightarrow> 'p mq_state \<Rightarrow> (mq_error + unit) \<times> 'p mq_state" where
  "ack messageId cid = mutation (ack_handler messageId cid)"

definition nack_handler ::
  "id_string \<Rightarrow> string \<Rightarrow> string option \<Rightarrow> 'p mq_state
     \<Rightarrow> (mq_error + 'p ExhaustedMessage option) \<times> 'p mq_state" where
  "nack_handler messageId cid error_arg s =
     (case normalizeId messageId of
        None \<Rightarrow> (Inl InvalidMessageId, s)
      | Some i \<Rightarrow>
          (case db_get s i of
             None \<Rightarrow> (Inl MessageNotFound, s)
           | Some msg \<Rightarrow>
               if status msg \<noteq> Claimed then (Inl (CannotNack (status msg)), s)
               else if claimId msg \<noteq> Some cid then (Inl ClaimExpired, s)
               else if attempts msg \<ge> maxAttempts msg
               then (Inr (Some \<lparr>ex_payload = payload msg, ex_attempts = attempts msg,
                                ex_error = (case error_arg of None \<Rightarrow> ''Max attempts exceeded''
                                            | Some e \<Rightarrow> e)\<rparr>),
                     db_delete s i)
               else (Inr None, db_patch s i (\<lambda>m. m\<lparr>status := Pending, claimId := None\<rparr>))))"

definition nack ::
  "id_string \<Rightarrow> string \<Rightarrow> string option \<Rightarrow> 'p mq_state
     \<Rightarrow> (mq_error + 'p ExhaustedMessage option) \<times> 'p mq_state" where
  "nack messageId cid error_arg = mutation (nack_handler messageId cid error_arg)"

fun claimByIds_loop ::
  "(nat \<Rightarrow> nat) \<Rightarrow> id_string list \<Rightarrow> 'p ClaimedMessage list \<Rightarrow> 'p mq_state
     \<Rightarrow> (mq_error + 'p ClaimedMessage list) \<times> 'p mq_state" where
  "claimByIds_loop rnd [] claimed s = (Inr claimed, s)"
| "claimByIds_loop rnd (messageId # messageIds) claimed s =
     (case normalizeId messageId of
        None \<Rightarrow> claimByIds_loop rnd messageIds claimed s
      | Some i \<Rightarrow>
          (case db_get s i of
             None \<Rightarrow> claimByIds_loop rnd messageIds claimed s
           | Some msg \<Rightarrow>
               if status msg \<noteq> Pending then claimByIds_loop rnd messageIds claimed s
               else (case claim_message rnd i msg s of
                       (Inl e, s') \<Rightarrow> (Inl e, s')
                     | (Inr c, s') \<Rightarrow> claimByIds_loop rnd messageIds (claimed @ [c]) s')))"

definition claimByIds_handler ::
  "(nat \<Rightarrow> nat) \<Rightarrow> id_string list \<Rightarrow> 'p mq_state
     \<Rightarrow> (mq_error + 'p ClaimedMessage list) \<times> 'p mq_state" where
  "claimByIds_handler rnd messageIds s = claimByIds_loop rnd messageIds [] s"

definition claimByIds ::
  "(nat \<Rightarrow> nat) \<Rightarrow> id_string list \<Rightarrow> 'p mq_state
     \<Rightarrow> (mq_error + 'p ClaimedMessage list) \<times> 'p mq_state" where
  "claimByIds rnd messageIds = mutation (claimByIds_handler rnd messageIds)"

text \<open>\<^verbatim>\<open>reclaimStale\<close> of \<^verbatim>\<open>src/component/lib.ts\<close>, the callback scheduled by a claim.\<close>

definition reclaimStale_handler ::
  "id_string \<Rightarrow> string \<Rightarrow> 'p mq_state \<Rightarrow> (mq_error + unit) \<times> 'p mq_state" where
  "reclaimStale_handler messageId cid s =
     (case normalizeId messageId of
        None \<Rightarrow> (Inr (), s)
      | Some i \<Rightarrow>
          (case db_get s i of
             None \<Rightarrow> (Inr (), s)
           | Some msg \<Rightarrow>
               if status msg \<noteq> Claimed then (Inr (), s)
               else if claimId msg \<noteq> Some cid then (Inr (), s)
               else (Inr (), db_patch s i (\<lambda>m. m\<lparr>status := Pending, claimId := None\<rparr>))))"

definition reclaimStale ::
  "id_string \<Rightarrow> string \<Rightarrow> 'p mq_state \<Rightarrow> (mq_error + unit) \<times> 'p mq_state" where
  "reclaimStale messageId cid = mutation (reclaimStale_handler messageId cid)"

section \<open>Library mode\<close>

text \<open>
  The functions generated by \<^verbatim>\<open>MessageQueue.api\<close> of \<^verbatim>\<open>src/client/table.ts\<close>, on a table the
  user owns. The message id is cast to a document id (\<^verbatim>\<open>args.messageId as GenericId\<close>), so
  these functions take the document number.
\<close>

definition table_generateClaimId :: "(nat \<Rightarrow> nat) \<Rightarrow> nat \<Rightarrow> string" where
  "table_generateClaimId =
     random_chars ''ABCDEFGHIJKLMNOPQRSTUVWXYZabcdefghijklmnopqrstuvwxyz0123456789''"

record MessageQueueOptions =
  defaultMaxAttempts :: "int option"
  defaultVisibilityTimeoutMs :: "int option"

definition table_new_message :: "MessageQueueOptions \<Rightarrow> 'p \<Rightarrow> 'p message" where
  "table_new_message options p =
     \<lparr>payload = p, status = Pending, attempts = 0,
      maxAttempts = (case defaultMaxAttempts options of None \<Rightarrow> 3 | Some n \<Rightarrow> n),
      visibilityTimeoutMs =
        (case defaultVisibilityTimeoutMs options of None \<Rightarrow> 30000 | Some t \<Rightarrow> t),
      claimId = None\<rparr>"

definition table_publish_handler ::
  "('p message \<Rightarrow> bool) \<Rightarrow> MessageQueueOptions \<Rightarrow> 'p \<Rightarrow> 'p mq_state
     \<Rightarrow> (mq_error + nat) \<times> 'p mq_state" where
  "table_publish_handler accepts options p s = db_insert accepts s (table_new_message options p)"

definition table_publish ::
  "('p message \<Rightarrow> bool) \<Rightarrow> MessageQueueOptions \<Rightarrow> 'p \<Rightarrow> 'p mq_state
     \<Rightarrow> (mq_error + nat) \<times> 'p mq_state" where
  "table_publish accepts options p = mutation (table_publish_handler accepts options p)"

fun table_publishBatch_loop ::
  "('p message \<Rightarrow> bool) \<Rightarrow> MessageQueueOptions \<Rightarrow> 'p list \<Rightarrow> nat list \<Rightarrow> 'p mq_state
     \<Rightarrow> (mq_error + nat list) \<times> 'p mq_state" where
  "table_publishBatch_loop accepts options [] ids s = (Inr ids, s)"
| "table_publishBatch_loop accepts options (p # ps) ids s =
     (case db_insert accepts s (table_new_message options p) of
        (Inl e, s') \<Rightarrow> (Inl e, s')
      | (Inr i, s') \<Rightarrow> table_publishBatch_loop accepts options ps (ids @ [i]) s')"

definition table_publishBatch_handler ::
  "('p message \<Rightarrow> bool) \<Rightarrow> MessageQueueOptions \<Rightarrow> 'p list \<Rightarrow> 'p mq_state
     \<Rightarrow> (mq_error + nat list) \<times> 'p mq_state" where
  "table_publishBatch_handler accepts options ps s =
     table_publishBatch_loop accepts options ps [] s"

definition table_publishBatch ::
  "('p message \<Rightarrow> bool) \<Rightarrow> MessageQueueOptions \<Rightarrow> 'p list \<Rightarrow> 'p mq_state
     \<Rightarrow> (mq_error + nat list) \<times> 'p mq_state" where
  "table_publishBatch accepts options ps = mutation (table_publishBatch_handler accepts options ps)"

text \<open>
  The filter callback of a \<^verbatim>\<open>FilterConfig\<close> builds the query of \<^verbatim>\<open>peek\<close> and \<^verbatim>\<open>claim\<close> from the
  table and the filter arguments of the call, with an index of the user's table
  (\<^verbatim>\<open>q.withIndex("by_worker", q => q.eq("status", "pending").eq("worker", worker))\<close>). Such a
  query yields the documents of a range of the index in the order of the index: by the
  fields of the index, then by creation. The model has the callback applied to its
  arguments: \<open>fc_index\<close> gives the value of the index fields on a document (a key of any
  linearly ordered type \<open>'k\<close>) and \<open>fc_range\<close> tells the documents the range expression
  selects. The sort is stable, so documents with the same key stay in insertion order.
\<close>

record ('p, 'k) FilterConfig =
  fc_index :: "'p message \<Rightarrow> 'k"
  fc_range :: "'p message \<Rightarrow> bool"

definition table_baseQuery ::
  "('p, 'k :: linorder) FilterConfig option \<Rightarrow> 'p mq_state \<Rightarrow> (nat \<times> 'p message) list" where
  "table_baseQuery filterConfig s =
     (case filterConfig of
        Some fc \<Rightarrow>
          sort_key (\<lambda>im. fc_index fc (snd im)) (filter (\<lambda>im. fc_range fc (snd im)) (documents s))
      | None \<Rightarrow> by_status Pending s)"

definition table_peek :: "('p, 'k :: linorder) FilterConfig option \<Rightarrow> 'p mq_state \<Rightarrow> bool" where
  "table_peek filterConfig s =
     (case table_baseQuery filterConfig s of [] \<Rightarrow> False | first # _ \<Rightarrow> True)"

definition table_claim_message ::
  "(nat \<Rightarrow> nat) \<Rightarrow> nat \<Rightarrow> 'p message \<Rightarrow> 'p mq_state
     \<Rightarrow> (mq_error + 'p ClaimedMessage) \<times> 'p mq_state" where
  "table_claim_message rnd i msg s =
     (let token = table_generateClaimId rnd (draws s);
          s1 = db_patch (s\<lparr>draws := draws s + 16\<rparr>) i
                 (\<lambda>m. m\<lparr>status := Claimed, claimId := Some token,
                         attempts := attempts msg + 1\<rparr>)
      in case scheduler_runAfter (visibilityTimeoutMs msg) (IdOf i) token s1 of
           (Inl e, s2) \<Rightarrow> (Inl e, s2)
         | (Inr _, s2) \<Rightarrow>
             (Inr \<lparr>cm_id = IdOf i, cm_claimId = token, cm_payload = payload msg,
                   cm_attempts = attempts msg + 1\<rparr>, s2))"

fun table_claim_loop ::
  "(nat \<Rightarrow> nat) \<Rightarrow> (nat \<times> 'p message) list \<Rightarrow> 'p ClaimedMessage list \<Rightarrow> 'p mq_state
     \<Rightarrow> (mq_error + 'p ClaimedMessage list) \<times> 'p mq_state" where
  "table_claim_loop rnd [] claimed s = (Inr claimed, s)"
| "table_claim_loop rnd ((i, msg) # pending) claimed s =
     (if status msg \<noteq> Pending then table_claim_loop rnd pending claimed s
      else (case table_claim_message rnd i msg s of
              (Inl e, s') \<Rightarrow> (Inl e, s')
            | (Inr c, s') \<Rightarrow> table_claim_loop rnd pending (claimed @ [c]) s'))"

definition table_claim_handler ::
  "(nat \<Rightarrow> nat) \<Rightarrow> ('p, 'k :: linorder) FilterConfig option \<Rightarrow> nat option \<Rightarrow> 'p mq_state
     \<Rightarrow> (mq_error + 'p ClaimedMessage list) \<times> 'p mq_state" where
  "table_claim_handler rnd filterConfig limit_arg s =
     (let limit = (case limit_arg of None \<Rightarrow> 5 | Some n \<Rightarrow> n);
          pending = take limit (table_baseQuery filterConfig s)
      in table_claim_loop rnd pending [] s)"

definition table_claim ::
  "(nat \<Rightarrow> nat) \<Rightarrow> ('p, 'k :: linorder) FilterConfig option \<Rightarrow> nat option \<Rightarrow> 'p mq_state
     \<Rightarrow> (mq_error + 'p ClaimedMessage list) \<times> 'p mq_state" where
  "table_claim rnd filterConfig limit_arg = mutation (table_claim_handler rnd filterConfig limit_arg)"

definition table_ack_handler ::
  "nat \<Rightarrow> string \<Rightarrow> 'p mq_state \<Rightarrow> (mq_error + unit) \<times> 'p mq_state" where
  "table_ack_handler i cid s =
     (case db_get s i of
        None \<Rightarrow> (Inl MessageNotFound, s)
      | Some msg \<Rightarrow>
          if status msg \<noteq> Claimed then (Inl (CannotAck (status msg)), s)
          else if claimId msg \<noteq> Some cid then (Inl ClaimExpired, s)
          else (Inr (), db_delete s i))"

definition table_ack :: "nat \<Rightarrow> string \<Rightarrow> 'p mq_state \<Rightarrow> (mq_error + unit) \<times> 'p mq_state" where
  "table_ack i cid = mutation (table_ack_handler i cid)"

definition table_nack_handler ::
  "nat \<Rightarrow> string \<Rightarrow> string option \<Rightarrow> 'p mq_state
     \<Rightarrow> (mq_error + 'p ExhaustedMessage option) \<times> 'p mq_state" where
  "table_nack_handler i cid error_arg s =
     (case db_get s i of
        None \<Rightarrow> (Inl MessageNotFound, s)
      | Some msg \<Rightarrow>
          if status msg \<noteq> Claimed then (Inl (CannotNack (status msg)), s)
          else if claimId msg \<noteq> Some cid then (Inl ClaimExpired, s)
          else if attempts msg \<ge> maxAttempts msg
          then (Inr (Some \<lparr>ex_payload = payload msg, ex_attempts = attempts msg,
                           ex_error = (case error_arg of None \<Rightarrow> [] | Some e \<Rightarrow> e)\<rparr>),
                db_delete s i)
          else (Inr None, db_patch s i (\<lambda>m. m\<lparr>status := Pending, claimId := None\<rparr>)))"

definition table_nack ::
  "nat \<Rightarrow> string \<Rightarrow> string option \<Rightarrow> 'p mq_state
     \<Rightarrow> (mq_error + 'p ExhaustedMessage option) \<times> 'p mq_state" where
  "table_nack i cid error_arg = mutation (table_nack_handler i cid error_arg)"

definition table_reclaimStale_handler ::
  "nat \<Rightarrow> string \<Rightarrow> 'p mq_state \<Rightarrow> (mq_error + unit) \<times> 'p mq_state" where
  "table_reclaimStale_handler i cid s =
     (case db_get s i of
        None \<Rightarrow> (Inr (), s)
      | Some msg \<Rightarrow>
          if status msg \<noteq> Claimed then (Inr (), s)
          else if claimId msg \<noteq> Some cid then (Inr (), s)
          else (Inr (), db_patch s i (\<lambda>m. m\<lparr>status := Pending, claimId := None\<rparr>)))"

definition table_reclaimStale ::
  "nat \<Rightarrow> string \<Rightarrow> 'p mq_state \<Rightarrow> (mq_error + unit) \<times> 'p mq_state" where
  "table_reclaimStale i cid = mutation (table_reclaimStale_handler i cid)"

section \<open>Sequences of operations\<close>

datatype 'p op =
    Publish "'p publish_args"
  | PublishBatch "'p publish_args list"
  | Claim "nat option"
  | ClaimByIds "id_string list"
  | Ack id_string string
  | Nack id_string string "string option"
  | ReclaimStale id_string string

datatype 'p reply =
    PublishedId id_string
  | PublishedIds "id_string list"
  | ClaimedMessages "'p ClaimedMessage list"
  | Acked
  | Nacked "'p ExhaustedMessage option"
  | Reclaimed

definition replying ::
  "('a \<Rightarrow> 'p reply) \<Rightarrow> (mq_error + 'a) \<times> 'p mq_state \<Rightarrow> (mq_error + 'p reply) \<times> 'p mq_state" where
  "replying f out = (case out of (Inl e, s) \<Rightarrow> (Inl e, s) | (Inr r, s) \<Rightarrow> (Inr (f r), s))"

fun exec ::
  "('p message \<Rightarrow> bool) \<Rightarrow> (nat \<Rightarrow> nat) \<Rightarrow> 'p op \<Rightarrow> 'p mq_state
     \<Rightarrow> (mq_error + 'p reply) \<times> 'p mq_state" where
  "exec accepts rnd (Publish a) s = replying PublishedId (publish accepts a s)"
| "exec accepts rnd (PublishBatch as) s = replying PublishedIds (publishBatch accepts as s)"
| "exec accepts rnd (Claim limit_arg) s = replying ClaimedMessages (claim rnd limit_arg s)"
| "exec accepts rnd (ClaimByIds ids) s = replying ClaimedMessages (claimByIds rnd ids s)"
| "exec accepts rnd (Ack messageId cid) s = replying (\<lambda>_. Acked) (ack messageId cid s)"
| "exec accepts rnd (Nack messageId cid e) s = replying Nacked (nack messageId cid e s)"
| "exec accepts rnd (ReclaimStale messageId cid) s =
     replying (\<lambda>_. Reclaimed) (reclaimStale messageId cid s)"

fun run ::
  "('p message \<Rightarrow> bool) \<Rightarrow> (nat \<Rightarrow> nat) \<Rightarrow> 'p op list \<Rightarrow> 'p mq_state
     \<Rightarrow> (mq_error + 'p reply) list \<times> 'p mq_state" where
  "run accepts rnd [] s = ([], s)"
| "run accepts rnd (op # ops) s =
     (case exec accepts rnd op s of
        (r, s') \<Rightarrow> (case run accepts rnd ops s' of (rs, s'') \<Rightarrow> (r # rs, s'')))"

section \<open>The reactive consumption engine\<close>

text \<open>
  \<^verbatim>\<open>consume\<close> and \<^verbatim>\<open>consumeFiltered\<close> (\<^verbatim>\<open>src/client/client.ts\<close>) handle a claimed batch by the
  same statements: the \<^verbatim>\<open>try\<close> block calls the handler on the whole batch and then acks
  every message; the \<^verbatim>\<open>catch\<close> block goes through the batch message by message.

  The handler and the two mutations of the client are callbacks of the engine: they act
  on a world \<open>'w\<close> (the server, the network, whatever the handler touches) and either
  return or throw. A thrown value is an \<^verbatim>\<open>Error\<close> with its message or any other value
  with its \<^verbatim>\<open>String(...)\<close> rendering.
\<close>

datatype js_exn = JsError string | JsValue string

fun errorStr :: "js_exn \<Rightarrow> string" where
  "errorStr (JsError message) = message"
| "errorStr (JsValue rendered) = rendered"

record ('p, 'w) consumer =
  c_handler :: "'p ClaimedMessage list \<Rightarrow> 'w \<Rightarrow> js_exn option \<times> 'w"
  c_ack :: "id_string \<Rightarrow> string \<Rightarrow> 'w \<Rightarrow> js_exn option \<times> 'w"
  c_nack :: "id_string \<Rightarrow> string \<Rightarrow> string \<Rightarrow> 'w \<Rightarrow> js_exn option \<times> 'w"

text \<open>The calls the engine makes, each with its outcome (\<open>None\<close>: returned).\<close>

datatype 'p event =
    HandlerCall "'p ClaimedMessage list" "js_exn option"
  | AckCall id_string string "js_exn option"
  | NackCall id_string string string "js_exn option"

text \<open>
  The \<^verbatim>\<open>catch (msgError)\<close> block of one message: the nack carries the description of the
  failure. A nack that throws is not caught.
\<close>

definition nack_message ::
  "('p, 'w) consumer \<Rightarrow> 'p ClaimedMessage \<Rightarrow> js_exn \<Rightarrow> 'w \<Rightarrow> 'p event list \<times> js_exn option \<times> 'w" where
  "nack_message c msg msgError w =
     (case c_nack c (cm_id msg) (cm_claimId msg) (errorStr msgError) w of
        (r, w') \<Rightarrow> ([NackCall (cm_id msg) (cm_claimId msg) (errorStr msgError) r], r, w'))"

text \<open>The body of the loop \<^verbatim>\<open>for (const msg of claimed)\<close> of the \<^verbatim>\<open>catch (batchError)\<close> block.\<close>

definition process_message ::
  "('p, 'w) consumer \<Rightarrow> 'p ClaimedMessage \<Rightarrow> 'w \<Rightarrow> 'p event list \<times> js_exn option \<times> 'w" where
  "process_message c msg w =
     (case c_handler c [msg] w of
        (Some msgError, w1) \<Rightarrow>
          (case nack_message c msg msgError w1 of
             (log, r, w2) \<Rightarrow> (HandlerCall [msg] (Some msgError) # log, r, w2))
      | (None, w1) \<Rightarrow>
          (case c_ack c (cm_id msg) (cm_claimId msg) w1 of
             (None, w2) \<Rightarrow>
               ([HandlerCall [msg] None, AckCall (cm_id msg) (cm_claimId msg) None], None, w2)
           | (Some msgError, w2) \<Rightarrow>
               (case nack_message c msg msgError w2 of
                  (log, r, w3) \<Rightarrow>
                    (HandlerCall [msg] None
                       # AckCall (cm_id msg) (cm_claimId msg) (Some msgError) # log, r, w3))))"

fun process_individually ::
  "('p, 'w) consumer \<Rightarrow> 'p ClaimedMessage list \<Rightarrow> 'w \<Rightarrow> 'p event list \<times> js_exn option \<times> 'w" where
  "process_individually c [] w = ([], None, w)"
| "process_individually c (msg # rest) w =
     (case process_message c msg w of
        (log, Some thrown, w') \<Rightarrow> (log, Some thrown, w')
      | (log, None, w') \<Rightarrow>
          (case process_individually c rest w' of
             (log', r, w'') \<Rightarrow> (log @ log', r, w'')))"



section \<open>Notions of the specification and of the proofs\<close>

text \<open>
  The specification names three failures of \<^verbatim>\<open>ack\<close> and \<^verbatim>\<open>nack\<close>: \<open>NotFound\<close> (the id does
  not resolve to a row), \<open>InvalidState\<close> (the row is not currently claimed) and
  \<open>LeaseExpired\<close> (the claim id does not match), and \<open>StoreFault\<close> for a failure of the
  storage layer or of its scheduler. \<open>failure_of\<close> files each error of the source under
  its name.
\<close>

datatype failure = NotFound | InvalidState | LeaseExpired | StoreFault

fun failure_of :: "mq_error \<Rightarrow> failure" where
  "failure_of InvalidMessageId = NotFound"
| "failure_of MessageNotFound = NotFound"
| "failure_of (CannotAck _) = InvalidState"
| "failure_of (CannotNack _) = InvalidState"
| "failure_of ClaimExpired = LeaseExpired"
| "failure_of InsertFailed = StoreFault"
| "failure_of NegativeDelay = StoreFault"

text \<open>The invariant of the data model: a claim id is present iff the status is claimed.\<close>

definition claimId_iff_claimed :: "'p message \<Rightarrow> bool" where
  "claimId_iff_claimed m = ((claimId m \<noteq> None) = (status m = Claimed))"

definition lease_invariant :: "'p mq_state \<Rightarrow> bool" where
  "lease_invariant s =
     list_all (\<lambda>row. case row of None \<Rightarrow> True | Some m \<Rightarrow> claimId_iff_claimed m) (messages s)"

text \<open>The token \<open>t\<close> is the valid lease of message \<open>i\<close>.\<close>

definition holds_lease :: "'p mq_state \<Rightarrow> nat \<Rightarrow> string \<Rightarrow> bool" where
  "holds_lease s i t =
     (case db_get s i of None \<Rightarrow> False | Some m \<Rightarrow> status m = Claimed \<and> claimId m = Some t)"


text \<open>
  What a claimed message \<open>c\<close> says about the document \<open>im\<close> the claim read and about the
  state \<open>s'\<close> the claim left: the id, the payload and the attempts returned, and the stored
  row patched to claimed with one more attempt and the returned token.
\<close>

definition leased :: "'p mq_state \<Rightarrow> nat \<times> 'p message \<Rightarrow> 'p ClaimedMessage \<Rightarrow> bool" where
  "leased s' im c \<longleftrightarrow>
     cm_id c = IdOf (fst im) \<and> cm_payload c = payload (snd im)
     \<and> cm_attempts c = attempts (snd im) + 1
     \<and> db_get s' (fst im) =
         Some ((snd im)\<lparr>status := Claimed, attempts := attempts (snd im) + 1,
                        claimId := Some (cm_claimId c)\<rparr>)"

text \<open>
  The statements that \<^verbatim>\<open>claim\<close> and \<^verbatim>\<open>claimByIds\<close> of the component and \<^verbatim>\<open>claim\<close> of the
  library run on one pending message have the same effect when the scheduler accepts the
  timeout, up to the alphabet of the token; \<open>lease_message\<close> and \<open>lease_loop\<close> state it
  once, for any generator \<open>gen\<close> of tokens (from the number of draws made so far). They are
  compared with the loops of the source in \<open>claim_loop_lease\<close> and
  \<open>table_claim_loop_lease\<close>. \<open>schedulable\<close> says that the scheduler accepts the timeout of
  every document of a list.
\<close>

definition schedulable :: "(nat \<times> 'p message) list \<Rightarrow> bool" where
  "schedulable pending = list_all (\<lambda>im. 0 \<le> visibilityTimeoutMs (snd im)) pending"

definition lease_message ::
  "(nat \<Rightarrow> string) \<Rightarrow> nat \<Rightarrow> 'p message \<Rightarrow> 'p mq_state \<Rightarrow> 'p ClaimedMessage \<times> 'p mq_state" where
  "lease_message gen i msg s =
     (let token = gen (draws s);
          s1 = db_patch (s\<lparr>draws := draws s + 16\<rparr>) i
                 (\<lambda>m. m\<lparr>status := Claimed, attempts := attempts msg + 1,
                         claimId := Some token\<rparr>);
          s2 = s1\<lparr>scheduled := scheduled s1 @ [(visibilityTimeoutMs msg, IdOf i, token)]\<rparr>
      in (\<lparr>cm_id = IdOf i, cm_claimId = token, cm_payload = payload msg,
           cm_attempts = attempts msg + 1\<rparr>, s2))"

fun lease_loop ::
  "(nat \<Rightarrow> string) \<Rightarrow> (nat \<times> 'p message) list \<Rightarrow> 'p ClaimedMessage list \<Rightarrow> 'p mq_state
     \<Rightarrow> 'p ClaimedMessage list \<times> 'p mq_state" where
  "lease_loop gen [] claimed s = (claimed, s)"
| "lease_loop gen ((i, msg) # pending) claimed s =
     (case lease_message gen i msg s of
        (c, s') \<Rightarrow> lease_loop gen pending (claimed @ [c]) s')"

text \<open>
  The sixteen draws behind a token, as indices into an alphabet of \<open>n\<close> characters, and
  the condition that the \<open>count\<close> tokens generated from draw \<open>d\<close> on come from pairwise
  different blocks of draws.
\<close>

definition draw_block :: "nat \<Rightarrow> (nat \<Rightarrow> nat) \<Rightarrow> nat \<Rightarrow> nat list" where
  "draw_block n rnd k = map (\<lambda>i. rnd (k + i) mod n) [0..<16]"

definition fresh_draws :: "nat \<Rightarrow> (nat \<Rightarrow> nat) \<Rightarrow> nat \<Rightarrow> nat \<Rightarrow> bool" where
  "fresh_draws n rnd d count = distinct (map (\<lambda>k. draw_block n rnd (d + 16 * k)) [0..<count])"

text \<open>
  The three checks of \<^verbatim>\<open>ack\<close> and \<^verbatim>\<open>nack\<close> in the order the specification gives them: the
  failure, if any, that a row (\<open>None\<close>: the id does not resolve to a row) and a claim id
  meet.
\<close>

definition lease_check :: "'p message option \<Rightarrow> string \<Rightarrow> failure option" where
  "lease_check row cid =
     (case row of
        None \<Rightarrow> Some NotFound
      | Some msg \<Rightarrow>
          if status msg \<noteq> Claimed then Some InvalidState
          else if claimId msg \<noteq> Some cid then Some LeaseExpired
          else None)"



section \<open>Basic facts\<close>

lemma mutation_Inr: "handler s = (Inr r, s') \<Longrightarrow> mutation handler s = (Inr r, s')"
  by (simp add: mutation_def)

lemma mutation_Inl: "handler s = (Inl e, s') \<Longrightarrow> mutation handler s = (Inl e, s)"
  by (simp add: mutation_def)

lemma mutation_unchanged_on_error:
  "(\<And>e s'. handler s = (Inl e, s') \<Longrightarrow> s' = s) \<Longrightarrow> mutation handler s = handler s"
  by (cases "handler s") (auto simp: mutation_def split: sum.splits)

lemma ack_eq_handler: "ack messageId cid s = ack_handler messageId cid s"
  unfolding ack_def
  by (rule mutation_unchanged_on_error)
     (auto simp: ack_handler_def split: option.splits if_splits)

lemma nack_eq_handler: "nack messageId cid e s = nack_handler messageId cid e s"
  unfolding nack_def
  by (rule mutation_unchanged_on_error)
     (auto simp: nack_handler_def split: option.splits if_splits)

lemma reclaimStale_eq_handler: "reclaimStale messageId cid s = reclaimStale_handler messageId cid s"
  unfolding reclaimStale_def
  by (rule mutation_unchanged_on_error)
     (auto simp: reclaimStale_handler_def split: option.splits if_splits)

lemma table_ack_eq_handler: "table_ack i cid s = table_ack_handler i cid s"
  unfolding table_ack_def
  by (rule mutation_unchanged_on_error)
     (auto simp: table_ack_handler_def split: option.splits if_splits)

lemma table_nack_eq_handler: "table_nack i cid e s = table_nack_handler i cid e s"
  unfolding table_nack_def
  by (rule mutation_unchanged_on_error)
     (auto simp: table_nack_handler_def split: option.splits if_splits)

lemma table_reclaimStale_eq_handler:
  "table_reclaimStale i cid s = table_reclaimStale_handler i cid s"
  unfolding table_reclaimStale_def
  by (rule mutation_unchanged_on_error)
     (auto simp: table_reclaimStale_handler_def split: option.splits if_splits)

section \<open>The table and the claim loop\<close>

lemma db_get_draws [simp]: "db_get (s\<lparr>draws := d\<rparr>) i = db_get s i"
  by (simp add: db_get_def)

lemma db_get_scheduled [simp]: "db_get (s\<lparr>scheduled := x\<rparr>) i = db_get s i"
  by (simp add: db_get_def)

lemma db_get_patch:
  "db_get (db_patch s i f) j = (if j = i then map_option f (db_get s i) else db_get s j)"
  by (auto simp: db_patch_def db_get_def split: option.splits)

lemma db_get_delete: "db_get (db_delete s i) j = (if j = i then None else db_get s j)"
  by (auto simp: db_delete_def db_get_def)

lemma db_patch_other [simp]:
  "draws (db_patch s i f) = draws s" "scheduled (db_patch s i f) = scheduled s"
  "length (messages (db_patch s i f)) = length (messages s)"
  by (auto simp: db_patch_def split: option.splits)

lemma db_delete_other [simp]:
  "draws (db_delete s i) = draws s" "scheduled (db_delete s i) = scheduled s"
  "length (messages (db_delete s i)) = length (messages s)"
  by (auto simp: db_delete_def)

lemma documents_set: "(i, m) \<in> set (documents s) \<longleftrightarrow> db_get s i = Some m"
proof
  assume "(i, m) \<in> set (documents s)"
  then show "db_get s i = Some m"
    by (auto simp: documents_def List.map_filter_def)
next
  assume g: "db_get s i = Some m"
  then have "i < length (messages s)"
    by (auto simp: db_get_def split: if_splits)
  with g show "(i, m) \<in> set (documents s)"
    by (force simp: documents_def List.map_filter_def image_iff)
qed

lemma documents_fst:
  "map fst (documents s) = filter (\<lambda>i. db_get s i \<noteq> None) [0..<length (messages s)]"
  unfolding documents_def List.map_filter_def
  by (auto simp: comp_def intro!: map_idI)

lemma documents_distinct: "distinct (map fst (documents s))"
  by (simp add: documents_fst)

lemma documents_sorted: "sorted (map fst (documents s))"
  unfolding documents_fst by (rule sorted_wrt_filter) simp

lemma by_status_set:
  "(i, m) \<in> set (by_status st s) \<longleftrightarrow> db_get s i = Some m \<and> status m = st"
  by (auto simp: by_status_def documents_set)

lemma by_status_distinct: "distinct (map fst (by_status st s))"
  unfolding by_status_def by (rule distinct_map_filter) (rule documents_distinct)

lemma by_status_sorted: "sorted (map fst (by_status st s))"
  unfolding by_status_def by (rule sorted_filter) (rule documents_sorted)

lemma lease_message_fst:
  "fst (lease_message gen i msg s) =
     \<lparr>cm_id = IdOf i, cm_claimId = gen (draws s), cm_payload = payload msg,
      cm_attempts = attempts msg + 1\<rparr>"
  by (simp add: lease_message_def Let_def)

lemma lease_message_get:
  "db_get (snd (lease_message gen i msg s)) j =
     (if j = i
      then map_option (\<lambda>m. m\<lparr>status := Claimed, attempts := attempts msg + 1,
                              claimId := Some (gen (draws s))\<rparr>) (db_get s i)
      else db_get s j)"
  by (simp add: lease_message_def Let_def db_get_patch)

lemma lease_message_draws: "draws (snd (lease_message gen i msg s)) = draws s + 16"
  by (simp add: lease_message_def Let_def)

lemma lease_message_scheduled:
  "scheduled (snd (lease_message gen i msg s)) =
     scheduled s @ [(visibilityTimeoutMs msg, IdOf i, gen (draws s))]"
  by (simp add: lease_message_def Let_def)

lemma lease_message_length:
  "length (messages (snd (lease_message gen i msg s))) = length (messages s)"
  by (simp add: lease_message_def Let_def)

lemma lease_loop_Cons:
  "lease_loop gen ((i, msg) # pending) claimed s =
     lease_loop gen pending (claimed @ [fst (lease_message gen i msg s)])
       (snd (lease_message gen i msg s))"
  by (simp split: prod.splits)

lemma lease_loop_acc:
  "lease_loop gen pending claimed s =
     (claimed @ fst (lease_loop gen pending [] s), snd (lease_loop gen pending [] s))"
proof (induction pending arbitrary: claimed s)
  case Nil
  show ?case by simp
next
  case (Cons im pending)
  obtain i msg where im: "im = (i, msg)" by (cases im)
  show ?case
    unfolding im lease_loop_Cons
    by (subst Cons.IH, subst (2 3) Cons.IH) simp
qed

lemma lease_loop_frame:
  "j \<notin> fst ` set pending \<Longrightarrow> db_get (snd (lease_loop gen pending claimed s)) j = db_get s j"
proof (induction pending arbitrary: claimed s)
  case Nil
  show ?case by simp
next
  case (Cons im pending)
  obtain i msg where im: "im = (i, msg)" by (cases im)
  from Cons.prems have "j \<noteq> i" "j \<notin> fst ` set pending" by (auto simp: im)
  then show ?case
    unfolding im lease_loop_Cons by (simp add: Cons.IH lease_message_get)
qed

lemma lease_loop_draws:
  "draws (snd (lease_loop gen pending claimed s)) = draws s + 16 * length pending"
proof (induction pending arbitrary: claimed s)
  case Nil
  show ?case by simp
next
  case (Cons im pending)
  obtain i msg where im: "im = (i, msg)" by (cases im)
  show ?case
    unfolding im lease_loop_Cons by (simp add: Cons.IH lease_message_draws)
qed

lemma lease_loop_messages_length:
  "length (messages (snd (lease_loop gen pending claimed s))) = length (messages s)"
proof (induction pending arbitrary: claimed s)
  case Nil
  show ?case by simp
next
  case (Cons im pending)
  obtain i msg where im: "im = (i, msg)" by (cases im)
  show ?case
    unfolding im lease_loop_Cons by (simp add: Cons.IH lease_message_length)
qed

lemma lease_loop_tokens:
  "map cm_claimId (fst (lease_loop gen pending [] s)) =
     map (\<lambda>k. gen (draws s + 16 * k)) [0..<length pending]"
proof (induction pending arbitrary: s)
  case Nil
  show ?case by simp
next
  case (Cons im pending)
  obtain i msg where im: "im = (i, msg)" by (cases im)
  have "[0..<length (im # pending)] = 0 # map Suc [0..<length pending]"
    by (simp add: upt_conv_Cons map_Suc_upt del: upt_Suc)
  then show ?case
    unfolding im lease_loop_Cons
    by (subst lease_loop_acc)
       (simp add: Cons.IH lease_message_fst lease_message_draws comp_def add.assoc)
qed

lemma lease_loop_scheduled:
  "scheduled (snd (lease_loop gen pending claimed s)) =
     scheduled s @ map (\<lambda>(im, c). (visibilityTimeoutMs (snd im), IdOf (fst im), cm_claimId c))
                    (zip pending (fst (lease_loop gen pending [] s)))"
proof (induction pending arbitrary: claimed s)
  case Nil
  show ?case by simp
next
  case (Cons im pending)
  obtain i msg where im: "im = (i, msg)" by (cases im)
  show ?case
    unfolding im lease_loop_Cons
    by (subst (2) lease_loop_acc)
       (simp add: Cons.IH lease_message_scheduled lease_message_fst)
qed

lemma lease_loop_leased:
  "distinct (map fst pending) \<Longrightarrow> (\<And>i msg. (i, msg) \<in> set pending \<Longrightarrow> db_get s i = Some msg) \<Longrightarrow>
   list_all2 (leased (snd (lease_loop gen pending [] s))) pending
     (fst (lease_loop gen pending [] s))"
proof (induction pending arbitrary: s)
  case Nil
  show ?case by simp
next
  case (Cons im pending)
  obtain i msg where im: "im = (i, msg)" by (cases im)
  let ?s1 = "snd (lease_message gen i msg s)"
  let ?c = "fst (lease_message gen i msg s)"
  from Cons.prems(1) have fresh: "i \<notin> fst ` set pending" and dist: "distinct (map fst pending)"
    by (auto simp: im)
  have get: "db_get s i = Some msg" using Cons.prems(2) by (simp add: im)
  have rest: "\<And>j m. (j, m) \<in> set pending \<Longrightarrow> db_get ?s1 j = Some m"
  proof -
    fix j m assume jm: "(j, m) \<in> set pending"
    then have "j \<noteq> i" using fresh by force
    then show "db_get ?s1 j = Some m"
      using Cons.prems(2) [of j m] jm by (simp add: lease_message_get im)
  qed
  have tail: "list_all2 (leased (snd (lease_loop gen pending [] ?s1))) pending
     (fst (lease_loop gen pending [] ?s1))"
    by (rule Cons.IH [OF dist rest])
  have "db_get (snd (lease_loop gen pending [] ?s1)) i = db_get ?s1 i"
    by (rule lease_loop_frame [OF fresh])
  then have head: "leased (snd (lease_loop gen pending [] ?s1)) (i, msg) ?c"
    by (simp add: leased_def lease_message_fst lease_message_get get)
  show ?case
    unfolding im lease_loop_Cons
    by (subst (1 2) lease_loop_acc) (simp add: head tail)
qed


lemma claim_message_lease:
  "0 \<le> visibilityTimeoutMs msg \<Longrightarrow>
   claim_message rnd i msg s =
     (Inr (fst (lease_message (generateClaimId rnd) i msg s)),
      snd (lease_message (generateClaimId rnd) i msg s))"
  by (simp add: claim_message_def lease_message_def scheduler_runAfter_def Let_def)

lemma claim_message_fails:
  "visibilityTimeoutMs msg < 0 \<Longrightarrow> fst (claim_message rnd i msg s) = Inl NegativeDelay"
  by (simp add: claim_message_def scheduler_runAfter_def Let_def)

lemma patch_fields_commute:
  "(\<lambda>m::'p message. m\<lparr>status := st, claimId := t, attempts := a\<rparr>) =
   (\<lambda>m. m\<lparr>status := st, attempts := a, claimId := t\<rparr>)"
proof
  fix m :: "'p message"
  show "m\<lparr>status := st, claimId := t, attempts := a\<rparr> =
        m\<lparr>status := st, attempts := a, claimId := t\<rparr>"
    by (cases m) simp
qed

lemma table_claim_message_lease:
  "0 \<le> visibilityTimeoutMs msg \<Longrightarrow>
   table_claim_message rnd i msg s =
     (Inr (fst (lease_message (table_generateClaimId rnd) i msg s)),
      snd (lease_message (table_generateClaimId rnd) i msg s))"
  by (simp add: table_claim_message_def lease_message_def scheduler_runAfter_def Let_def
      patch_fields_commute)

lemma table_claim_message_fails:
  "visibilityTimeoutMs msg < 0 \<Longrightarrow> fst (table_claim_message rnd i msg s) = Inl NegativeDelay"
  by (simp add: table_claim_message_def scheduler_runAfter_def Let_def)

lemma schedulable_simps [simp]:
  "schedulable []"
  "schedulable (im # pending) \<longleftrightarrow> 0 \<le> visibilityTimeoutMs (snd im) \<and> schedulable pending"
  by (simp_all add: schedulable_def)

text \<open>
  The loops of the source against the generic loop: they agree when the scheduler accepts
  every timeout, and the loops of the source throw otherwise.
\<close>

lemma claim_loop_lease:
  "schedulable pending \<Longrightarrow>
   claim_loop rnd pending claimed s =
     (Inr (fst (lease_loop (generateClaimId rnd) pending claimed s)),
      snd (lease_loop (generateClaimId rnd) pending claimed s))"
proof (induction pending arbitrary: claimed s)
  case Nil
  show ?case by simp
next
  case (Cons im pending)
  obtain i msg where im: "im = (i, msg)" by (cases im)
  from Cons.prems have "0 \<le> visibilityTimeoutMs msg" "schedulable pending"
    by (simp_all add: im)
  then show ?case
    unfolding im lease_loop_Cons by (simp add: claim_message_lease Cons.IH)
qed

lemma claim_loop_fails:
  "\<not> schedulable pending \<Longrightarrow> fst (claim_loop rnd pending claimed s) = Inl NegativeDelay"
proof (induction pending arbitrary: claimed s)
  case Nil
  then show ?case by simp
next
  case (Cons im pending)
  obtain i msg where im: "im = (i, msg)" by (cases im)
  show ?case
  proof (cases "visibilityTimeoutMs msg < 0")
    case True
    from claim_message_fails [OF this, of rnd i s] show ?thesis
      by (cases "claim_message rnd i msg s") (simp add: im)
  next
    case False
    with Cons.prems have "\<not> schedulable pending" by (simp add: im)
    from Cons.IH [OF this] False show ?thesis
      by (simp add: im claim_message_lease)
  qed
qed

lemma table_claim_loop_lease:
  "schedulable (filter (\<lambda>im. status (snd im) = Pending) pending) \<Longrightarrow>
   table_claim_loop rnd pending claimed s =
     (Inr (fst (lease_loop (table_generateClaimId rnd)
                  (filter (\<lambda>im. status (snd im) = Pending) pending) claimed s)),
      snd (lease_loop (table_generateClaimId rnd)
             (filter (\<lambda>im. status (snd im) = Pending) pending) claimed s))"
proof (induction pending arbitrary: claimed s)
  case Nil
  show ?case by simp
next
  case (Cons im pending)
  obtain i msg where im: "im = (i, msg)" by (cases im)
  show ?case
  proof (cases "status msg = Pending")
    case False
    with Cons show ?thesis by (simp add: im)
  next
    case True
    with Cons.prems have "0 \<le> visibilityTimeoutMs msg"
      "schedulable (filter (\<lambda>im. status (snd im) = Pending) pending)"
      by (simp_all add: im)
    with True show ?thesis
      unfolding im by (simp add: lease_loop_Cons table_claim_message_lease Cons.IH
          del: lease_loop.simps)
  qed
qed

lemma table_claim_loop_fails:
  "\<not> schedulable (filter (\<lambda>im. status (snd im) = Pending) pending) \<Longrightarrow>
   fst (table_claim_loop rnd pending claimed s) = Inl NegativeDelay"
proof (induction pending arbitrary: claimed s)
  case Nil
  then show ?case by simp
next
  case (Cons im pending)
  obtain i msg where im: "im = (i, msg)" by (cases im)
  show ?case
  proof (cases "status msg = Pending")
    case False
    with Cons show ?thesis by (simp add: im)
  next
    case True
    show ?thesis
    proof (cases "visibilityTimeoutMs msg < 0")
      case neg: True
      from table_claim_message_fails [OF this, of rnd i s] True show ?thesis
        by (cases "table_claim_message rnd i msg s") (simp add: im)
    next
      case False
      with Cons.prems True
      have "\<not> schedulable (filter (\<lambda>im. status (snd im) = Pending) pending)"
        by (simp add: im)
      from Cons.IH [OF this] False True show ?thesis
        by (simp add: im table_claim_message_lease)
    qed
  qed
qed

lemma random_chars_blocks:
  "random_chars chars rnd k = map (nth chars) (draw_block (length chars) rnd k)"
  by (simp add: random_chars_def draw_block_def)

lemma random_chars_eq_iff:
  assumes "distinct chars" "chars \<noteq> []"
  shows "random_chars chars rnd j = random_chars chars rnd k
     \<longleftrightarrow> draw_block (length chars) rnd j = draw_block (length chars) rnd k"
proof -
  let ?A = "set (draw_block (length chars) rnd j) \<union> set (draw_block (length chars) rnd k)"
  have "\<forall>i \<in> ?A. i < length chars"
    using assms(2) by (auto simp: draw_block_def)
  then have "inj_on (nth chars) ?A"
    using assms(1) by (intro inj_on_nth) auto
  then show ?thesis
    unfolding random_chars_blocks by (rule inj_on_map_eq_map)
qed

lemma random_chars_distinct_iff:
  assumes "distinct chars" "chars \<noteq> []" "length chars = n"
  shows "distinct (map (\<lambda>k. random_chars chars rnd (d + 16 * k)) [0..<count])
     \<longleftrightarrow> fresh_draws n rnd d count"
  unfolding fresh_draws_def distinct_map assms(3) [symmetric]
  by (simp add: inj_on_def random_chars_eq_iff [OF assms(1,2)])

lemma generateClaimId_distinct_iff:
  "distinct (map (\<lambda>k. generateClaimId rnd (d + 16 * k)) [0..<count])
     \<longleftrightarrow> fresh_draws 36 rnd d count"
  unfolding generateClaimId_def
  by (rule random_chars_distinct_iff) simp_all

lemma table_generateClaimId_distinct_iff:
  "distinct (map (\<lambda>k. table_generateClaimId rnd (d + 16 * k)) [0..<count])
     \<longleftrightarrow> fresh_draws 62 rnd d count"
  unfolding table_generateClaimId_def
  by (rule random_chars_distinct_iff) simp_all

lemma leased_ids:
  "list_all2 (leased s') pending claimed \<Longrightarrow> map cm_id claimed = map (IdOf \<circ> fst) pending"
  by (induction rule: list_all2_induct) (auto simp: leased_def)


lemma distinct_ids: "distinct (map fst pending) \<Longrightarrow> distinct (map (IdOf \<circ> fst) pending)"
  by (simp add: distinct_map inj_on_def)

text \<open>The outcome of the generic loop on a list of distinct documents of the table.\<close>

lemma lease_loop_outcome:
  assumes "distinct (map fst pending)"
    and "\<And>i msg. (i, msg) \<in> set pending \<Longrightarrow> db_get s i = Some msg"
    and "lease_loop gen pending [] s = (claimed, s')"
  shows "length claimed = length pending"
    and "list_all2 (leased s') pending claimed"
    and "distinct (map cm_id claimed)"
    and "map cm_claimId claimed = map (\<lambda>k. gen (draws s + 16 * k)) [0..<length claimed]"
    and "scheduled s' = scheduled s
           @ map (\<lambda>(im, c). (visibilityTimeoutMs (snd im), cm_id c, cm_claimId c))
               (zip pending claimed)"
    and "\<And>c. c \<in> set claimed \<Longrightarrow> cm_id c \<notin> (IdOf \<circ> fst) ` set (by_status Pending s')"
proof -
  show l2: "list_all2 (leased s') pending claimed"
    using lease_loop_leased [OF assms(1,2), of gen] assms(3) by simp
  then show len: "length claimed = length pending"
    by (simp add: list_all2_lengthD)
  show "distinct (map cm_id claimed)"
    using leased_ids [OF l2] distinct_ids [OF assms(1)] by simp
  show "map cm_claimId claimed = map (\<lambda>k. gen (draws s + 16 * k)) [0..<length claimed]"
    using lease_loop_tokens [of gen pending s] assms(3) len by simp
  have "\<And>im c. (im, c) \<in> set (zip pending claimed) \<Longrightarrow> IdOf (fst im) = cm_id c"
    using l2 by (auto simp: list_all2_iff leased_def)
  then have "map (\<lambda>(im, c). (visibilityTimeoutMs (snd im), IdOf (fst im), cm_claimId c))
               (zip pending claimed)
      = map (\<lambda>(im, c). (visibilityTimeoutMs (snd im), cm_id c, cm_claimId c))
               (zip pending claimed)"
    by (intro map_cong) auto
  then show "scheduled s' = scheduled s
           @ map (\<lambda>(im, c). (visibilityTimeoutMs (snd im), cm_id c, cm_claimId c))
               (zip pending claimed)"
    using lease_loop_scheduled [of gen pending "[]" s] assms(3) by simp
  fix c assume c: "c \<in> set claimed"
  show "cm_id c \<notin> (IdOf \<circ> fst) ` set (by_status Pending s')"
  proof
    assume "cm_id c \<in> (IdOf \<circ> fst) ` set (by_status Pending s')"
    then obtain i m where im: "cm_id c = IdOf i" "db_get s' i = Some m" "status m = Pending"
      by (auto simp: by_status_set)
    from c obtain k where k: "k < length claimed" "claimed ! k = c"
      by (auto simp: in_set_conv_nth)
    from list_all2_nthD2 [OF l2 k(1)] k(2) have "leased s' (pending ! k) c"
      by simp
    with im show False by (auto simp: leased_def)
  qed
qed

text \<open>
  A claim as a whole: the generic loop on the rows read when the scheduler accepts their
  timeouts, and a failure that leaves the state as it was otherwise.
\<close>

lemma claim_as_loop:
  "claim rnd limit_arg s =
     (if schedulable (take (case limit_arg of None \<Rightarrow> 1 | Some n \<Rightarrow> n) (by_status Pending s))
      then (Inr (fst (lease_loop (generateClaimId rnd)
                  (take (case limit_arg of None \<Rightarrow> 1 | Some n \<Rightarrow> n) (by_status Pending s)) [] s)),
            snd (lease_loop (generateClaimId rnd)
                  (take (case limit_arg of None \<Rightarrow> 1 | Some n \<Rightarrow> n) (by_status Pending s)) [] s))
      else (Inl NegativeDelay, s))"
proof (cases "schedulable (take (case limit_arg of None \<Rightarrow> 1 | Some n \<Rightarrow> n) (by_status Pending s))")
  case True
  then show ?thesis
    by (simp add: claim_def claim_handler_def claim_loop_lease mutation_def)
next
  case False
  from claim_loop_fails [OF this, of rnd "[]" s] False show ?thesis
    by (cases "claim_loop rnd (take (case limit_arg of None \<Rightarrow> 1 | Some n \<Rightarrow> n)
                 (by_status Pending s)) [] s")
       (simp add: claim_def claim_handler_def mutation_def)
qed

lemma table_claim_as_loop:
  "table_claim rnd filterConfig limit_arg s =
     (if schedulable (filter (\<lambda>im. status (snd im) = Pending)
                        (take (case limit_arg of None \<Rightarrow> 5 | Some n \<Rightarrow> n)
                           (table_baseQuery filterConfig s)))
      then (Inr (fst (lease_loop (table_generateClaimId rnd)
                  (filter (\<lambda>im. status (snd im) = Pending)
                     (take (case limit_arg of None \<Rightarrow> 5 | Some n \<Rightarrow> n)
                        (table_baseQuery filterConfig s))) [] s)),
            snd (lease_loop (table_generateClaimId rnd)
                  (filter (\<lambda>im. status (snd im) = Pending)
                     (take (case limit_arg of None \<Rightarrow> 5 | Some n \<Rightarrow> n)
                        (table_baseQuery filterConfig s))) [] s))
      else (Inl NegativeDelay, s))"
proof (cases "schedulable (filter (\<lambda>im. status (snd im) = Pending)
                        (take (case limit_arg of None \<Rightarrow> 5 | Some n \<Rightarrow> n)
                           (table_baseQuery filterConfig s)))")
  case True
  then show ?thesis
    by (simp add: table_claim_def table_claim_handler_def table_claim_loop_lease mutation_def)
next
  case False
  from table_claim_loop_fails [OF this, of rnd "[]" s] False show ?thesis
    by (cases "table_claim_loop rnd (take (case limit_arg of None \<Rightarrow> 5 | Some n \<Rightarrow> n)
                 (table_baseQuery filterConfig s)) [] s")
       (simp add: table_claim_def table_claim_handler_def mutation_def)
qed

lemma table_baseQuery_set:
  "(i, m) \<in> set (table_baseQuery filterConfig s) \<Longrightarrow> db_get s i = Some m"
  by (auto simp: table_baseQuery_def by_status_set documents_set split: option.splits)

lemma distinct_map_sort_key: "distinct (map g (sort_key f xs)) = distinct (map g xs)"
  by (simp add: distinct_map)

lemma table_baseQuery_distinct: "distinct (map fst (table_baseQuery filterConfig s))"
  by (auto simp: table_baseQuery_def by_status_distinct documents_distinct distinct_map_sort_key
      intro: distinct_map_filter split: option.splits)

lemma pending_taken:
  "distinct (map fst (take n (by_status Pending s)))"
  "(i, m) \<in> set (take n (by_status Pending s)) \<Longrightarrow> db_get s i = Some m \<and> status m = Pending"
proof -
  show "distinct (map fst (take n (by_status Pending s)))"
    unfolding take_map [symmetric] by (rule distinct_take) (rule by_status_distinct)
  assume "(i, m) \<in> set (take n (by_status Pending s))"
  then have "(i, m) \<in> set (by_status Pending s)" by (rule in_set_takeD)
  then show "db_get s i = Some m \<and> status m = Pending" by (simp add: by_status_set)
qed

lemma table_pending_taken:
  "distinct (map fst (filter (\<lambda>im. status (snd im) = Pending)
                        (take n (table_baseQuery filterConfig s))))"
  "(i, m) \<in> set (filter (\<lambda>im. status (snd im) = Pending)
                    (take n (table_baseQuery filterConfig s)))
     \<Longrightarrow> db_get s i = Some m \<and> status m = Pending"
proof -
  have "distinct (map fst (take n (table_baseQuery filterConfig s)))"
    unfolding take_map [symmetric] by (rule distinct_take) (rule table_baseQuery_distinct)
  then show "distinct (map fst (filter (\<lambda>im. status (snd im) = Pending)
                        (take n (table_baseQuery filterConfig s))))"
    by (rule distinct_map_filter)
  assume "(i, m) \<in> set (filter (\<lambda>im. status (snd im) = Pending)
                    (take n (table_baseQuery filterConfig s)))"
  then have "(i, m) \<in> set (take n (table_baseQuery filterConfig s))" "status m = Pending"
    by simp_all
  then show "db_get s i = Some m \<and> status m = Pending"
    by (auto dest: in_set_takeD table_baseQuery_set)
qed

lemma claim_skips_claimed:
  assumes "db_get t i = Some m" "status m = Claimed"
  shows "IdOf i \<notin> cm_id ` set (fst (lease_loop gen (take n (by_status Pending t)) [] t))"
proof -
  obtain claimed t' where l: "lease_loop gen (take n (by_status Pending t)) [] t = (claimed, t')"
    by (cases "lease_loop gen (take n (by_status Pending t)) [] t")
  have "list_all2 (leased t') (take n (by_status Pending t)) claimed"
  proof (rule lease_loop_outcome(2) [OF pending_taken(1) _ l])
    fix j msg assume "(j, msg) \<in> set (take n (by_status Pending t))"
    from pending_taken(2) [OF this] show "db_get t j = Some msg" ..
  qed
  then have "map cm_id claimed = map (IdOf \<circ> fst) (take n (by_status Pending t))"
    by (rule leased_ids)
  then have "set (map cm_id claimed) = set (map (IdOf \<circ> fst) (take n (by_status Pending t)))"
    by simp
  then have "cm_id ` set claimed = (IdOf \<circ> fst) ` set (take n (by_status Pending t))"
    by (simp only: set_map)
  moreover have "IdOf i \<notin> (IdOf \<circ> fst) ` set (take n (by_status Pending t))"
    using assms pending_taken(2) [of i _ n t] by auto
  ultimately show ?thesis using l by simp
qed

lemma table_claim_skips_claimed:
  assumes "db_get t i = Some m" "status m = Claimed"
  shows "IdOf i \<notin> cm_id ` set (fst (lease_loop gen
            (filter (\<lambda>im. status (snd im) = Pending) (take n (table_baseQuery fc t))) [] t))"
proof -
  let ?pending = "filter (\<lambda>im. status (snd im) = Pending) (take n (table_baseQuery fc t))"
  obtain claimed t' where l: "lease_loop gen ?pending [] t = (claimed, t')"
    by (cases "lease_loop gen ?pending [] t")
  have "list_all2 (leased t') ?pending claimed"
  proof (rule lease_loop_outcome(2) [OF table_pending_taken(1) _ l])
    fix j msg assume "(j, msg) \<in> set ?pending"
    from table_pending_taken(2) [OF this] show "db_get t j = Some msg" ..
  qed
  then have "map cm_id claimed = map (IdOf \<circ> fst) ?pending"
    by (rule leased_ids)
  then have "set (map cm_id claimed) = set (map (IdOf \<circ> fst) ?pending)"
    by simp
  then have "cm_id ` set claimed = (IdOf \<circ> fst) ` set ?pending"
    by (simp only: set_map)
  moreover have "IdOf i \<notin> (IdOf \<circ> fst) ` set ?pending"
  proof
    assume "IdOf i \<in> (IdOf \<circ> fst) ` set ?pending"
    then obtain m' where "(i, m') \<in> set ?pending"
      unfolding image_iff comp_def by force
    from table_pending_taken(2) [OF this] assms show False by simp
  qed
  ultimately have "IdOf i \<notin> cm_id ` set claimed" by simp
  then show ?thesis unfolding l by simp
qed


lemma lease_loop_facts:
  assumes d: "distinct (map fst pending)"
    and g: "\<And>i msg. (i, msg) \<in> set pending \<Longrightarrow> db_get s i = Some msg"
    and gen: "\<And>d count. distinct (map (\<lambda>k. gen (d + 16 * k)) [0..<count]) = fresh_draws a rnd d count"
    and n: "length pending \<le> n"
    and l: "lease_loop gen pending [] s = (claimed, s')"
  shows "length claimed \<le> n
     \<and> list_all2 (leased s') pending claimed
     \<and> distinct (map cm_id claimed)
     \<and> (distinct (map cm_claimId claimed) = fresh_draws a rnd (draws s) (length claimed))
     \<and> scheduled s' = scheduled s
           @ map (\<lambda>(im, c). (visibilityTimeoutMs (snd im), cm_id c, cm_claimId c))
               (zip pending claimed)
     \<and> (\<forall>c \<in> set claimed. cm_id c \<notin> (IdOf \<circ> fst) ` set (by_status Pending s'))"
proof (intro conjI ballI)
  show "length claimed \<le> n"
    using lease_loop_outcome(1) [OF d g l] n by simp
  show "list_all2 (leased s') pending claimed"
    by (rule lease_loop_outcome(2) [OF d g l])
  show "distinct (map cm_id claimed)"
    by (rule lease_loop_outcome(3) [OF d g l])
  show "distinct (map cm_claimId claimed) = fresh_draws a rnd (draws s) (length claimed)"
    using lease_loop_outcome(4) [OF d g l] gen [of "draws s" "length claimed"]
    by (simp only:)
  show "scheduled s' = scheduled s
           @ map (\<lambda>(im, c). (visibilityTimeoutMs (snd im), cm_id c, cm_claimId c))
               (zip pending claimed)"
    by (rule lease_loop_outcome(5) [OF d g l])
  fix c assume "c \<in> set claimed"
  from lease_loop_outcome(6) [OF d g l this]
  show "cm_id c \<notin> (IdOf \<circ> fst) ` set (by_status Pending s')" .
qed


section \<open>The default limit of claim\<close>

lemma lease_loop_length:
  "length (fst (lease_loop gen pending claimed s)) = length claimed + length pending"
proof (induction pending arbitrary: claimed s)
  case Nil
  show ?case by simp
next
  case (Cons im pending)
  obtain i msg where im: "im = (i, msg)" by (cases im)
  show ?case
    unfolding im lease_loop_Cons by (simp add: Cons.IH)
qed

lemma taken_all_pending:
  "filter (\<lambda>im. status (snd im) = Pending) (take n (by_status Pending s))
     = take n (by_status Pending s)"
proof (rule filter_True)
  show "\<forall>im \<in> set (take n (by_status Pending s)). status (snd im) = Pending"
  proof
    fix im assume "im \<in> set (take n (by_status Pending s))"
    then have "im \<in> set (by_status Pending s)" by (rule in_set_takeD)
    then show "status (snd im) = Pending" by (simp add: by_status_def)
  qed
qed

text \<open>
  Claim C10. With the limit omitted, the component's \<^verbatim>\<open>claim\<close> behaves as with limit 1 and
  claims one message when a pending one exists (none otherwise); the library's \<^verbatim>\<open>claim\<close>
  behaves as with limit 5 and claims at most five messages, exactly
  \<open>min 5 (number of pending messages)\<close> when no filter is configured. In both modes the
  claim throws exactly when the scheduler refuses the timeout of a row it read.
\<close>

theorem claim_default_limit:
  "claim rnd None s = claim rnd (Some 1) s
   \<and> (case fst (claim rnd None s) of
        Inr claimed \<Rightarrow>
          schedulable (take 1 (by_status Pending s))
          \<and> length claimed = min 1 (length (by_status Pending s))
      | Inl e \<Rightarrow> \<not> schedulable (take 1 (by_status Pending s)) \<and> e = NegativeDelay)
   \<and> table_claim rnd filterConfig None s = table_claim rnd filterConfig (Some 5) s
   \<and> (case fst (table_claim rnd filterConfig None s) of
        Inr claimed \<Rightarrow>
          schedulable (filter (\<lambda>im. status (snd im) = Pending)
                         (take 5 (table_baseQuery filterConfig s)))
          \<and> length claimed \<le> 5
      | Inl e \<Rightarrow>
          \<not> schedulable (filter (\<lambda>im. status (snd im) = Pending)
                           (take 5 (table_baseQuery filterConfig s)))
          \<and> e = NegativeDelay)
   \<and> (case fst (table_claim rnd None None s) of
        Inr claimed \<Rightarrow>
          schedulable (take 5 (by_status Pending s))
          \<and> length claimed = min 5 (length (by_status Pending s))
      | Inl e \<Rightarrow> \<not> schedulable (take 5 (by_status Pending s)) \<and> e = NegativeDelay)"
proof (intro conjI)
  show "claim rnd None s = claim rnd (Some 1) s"
    by (simp add: claim_as_loop)
  show "case fst (claim rnd None s) of
        Inr claimed \<Rightarrow>
          schedulable (take 1 (by_status Pending s))
          \<and> length claimed = min 1 (length (by_status Pending s))
      | Inl e \<Rightarrow> \<not> schedulable (take 1 (by_status Pending s)) \<and> e = NegativeDelay"
    by (simp add: claim_as_loop lease_loop_length min.commute)
  show "table_claim rnd filterConfig None s = table_claim rnd filterConfig (Some 5) s"
    by (simp add: table_claim_as_loop)
  have "length (filter (\<lambda>im. status (snd im) = Pending) (take 5 (table_baseQuery filterConfig s)))
      \<le> 5"
    by (rule order_trans [OF length_filter_le]) simp
  then show "case fst (table_claim rnd filterConfig None s) of
        Inr claimed \<Rightarrow>
          schedulable (filter (\<lambda>im. status (snd im) = Pending)
                         (take 5 (table_baseQuery filterConfig s)))
          \<and> length claimed \<le> 5
      | Inl e \<Rightarrow>
          \<not> schedulable (filter (\<lambda>im. status (snd im) = Pending)
                           (take 5 (table_baseQuery filterConfig s)))
          \<and> e = NegativeDelay"
    by (simp add: table_claim_as_loop lease_loop_length)
  show "case fst (table_claim rnd None None s) of
        Inr claimed \<Rightarrow>
          schedulable (take 5 (by_status Pending s))
          \<and> length claimed = min 5 (length (by_status Pending s))
      | Inl e \<Rightarrow> \<not> schedulable (take 5 (by_status Pending s)) \<and> e = NegativeDelay"
    by (simp add: table_claim_as_loop table_baseQuery_def taken_all_pending lease_loop_length
        min.commute)
qed

section \<open>What a claim does\<close>

text \<open>
  The effect of a \<^verbatim>\<open>claim\<close> that returns, in both modes: at most \<open>n\<close> messages, one for each
  pending row read, in their order, with pairwise distinct message ids; each row patched
  to claimed with one more attempt and the returned token; one reclaim callback per row,
  after the row's \<^verbatim>\<open>visibilityTimeoutMs\<close>, carrying the id and the token; no returned message
  in the pending set afterwards. The tokens are pairwise distinct exactly when the blocks
  of sixteen random draws behind them differ.
\<close>

lemma claim_effect:
  assumes "claim rnd (Some n) s = (Inr claimed, s')"
  shows "length claimed \<le> n
     \<and> list_all2 (leased s') (take n (by_status Pending s)) claimed
     \<and> distinct (map cm_id claimed)
     \<and> (distinct (map cm_claimId claimed) = fresh_draws 36 rnd (draws s) (length claimed))
     \<and> scheduled s' = scheduled s
           @ map (\<lambda>(im, c). (visibilityTimeoutMs (snd im), cm_id c, cm_claimId c))
               (zip (take n (by_status Pending s)) claimed)
     \<and> (\<forall>c \<in> set claimed. cm_id c \<notin> (IdOf \<circ> fst) ` set (by_status Pending s'))"
proof -
  let ?pending = "take n (by_status Pending s)"
  from assms have l: "lease_loop (generateClaimId rnd) ?pending [] s = (claimed, s')"
    by (simp add: claim_as_loop prod_eq_iff split: if_splits)
  have g: "\<And>j msg. (j, msg) \<in> set ?pending \<Longrightarrow> db_get s j = Some msg"
    using pending_taken(2) by blast
  have len: "length ?pending \<le> n" by simp
  show ?thesis
    by (rule lease_loop_facts [OF pending_taken(1) g generateClaimId_distinct_iff len l])
qed

lemma table_claim_effect:
  assumes "table_claim rnd filterConfig (Some n) s = (Inr claimed, s')"
  shows "length claimed \<le> n
     \<and> list_all2 (leased s')
           (filter (\<lambda>im. status (snd im) = Pending) (take n (table_baseQuery filterConfig s)))
           claimed
     \<and> distinct (map cm_id claimed)
     \<and> (distinct (map cm_claimId claimed) = fresh_draws 62 rnd (draws s) (length claimed))
     \<and> scheduled s' = scheduled s
           @ map (\<lambda>(im, c). (visibilityTimeoutMs (snd im), cm_id c, cm_claimId c))
               (zip (filter (\<lambda>im. status (snd im) = Pending)
                       (take n (table_baseQuery filterConfig s))) claimed)
     \<and> (\<forall>c \<in> set claimed. cm_id c \<notin> (IdOf \<circ> fst) ` set (by_status Pending s'))"
proof -
  let ?pending = "filter (\<lambda>im. status (snd im) = Pending) (take n (table_baseQuery filterConfig s))"
  from assms have l: "lease_loop (table_generateClaimId rnd) ?pending [] s = (claimed, s')"
    by (simp add: table_claim_as_loop prod_eq_iff split: if_splits)
  have g: "\<And>j msg. (j, msg) \<in> set ?pending \<Longrightarrow> db_get s j = Some msg"
    using table_pending_taken(2) by blast
  have len: "length ?pending \<le> n"
    by (rule order_trans [OF length_filter_le]) simp
  show ?thesis
    by (rule lease_loop_facts [OF table_pending_taken(1) g table_generateClaimId_distinct_iff len l])
qed

text \<open>A row whose status is claimed is returned by no claim.\<close>

lemma claimed_row_not_claimed_again:
  assumes "db_get t i = Some m" "status m = Claimed"
  shows "claim rnd limit_arg t = (Inr claimed, t') \<Longrightarrow> IdOf i \<notin> cm_id ` set claimed"
    and "table_claim rnd filterConfig limit_arg t = (Inr claimed, t') \<Longrightarrow>
         IdOf i \<notin> cm_id ` set claimed"
proof -
  assume "claim rnd limit_arg t = (Inr claimed, t')"
  then have "claimed = fst (lease_loop (generateClaimId rnd)
        (take (case limit_arg of None \<Rightarrow> 1 | Some n \<Rightarrow> n) (by_status Pending t)) [] t)"
    by (simp add: claim_as_loop split: if_splits)
  with claim_skips_claimed [OF assms] show "IdOf i \<notin> cm_id ` set claimed"
    by simp
next
  assume "table_claim rnd filterConfig limit_arg t = (Inr claimed, t')"
  then have "claimed = fst (lease_loop (table_generateClaimId rnd)
        (filter (\<lambda>im. status (snd im) = Pending)
           (take (case limit_arg of None \<Rightarrow> 5 | Some n \<Rightarrow> n)
              (table_baseQuery filterConfig t))) [] t)"
    by (simp add: table_claim_as_loop split: if_splits)
  with table_claim_skips_claimed [OF assms] show "IdOf i \<notin> cm_id ` set claimed"
    by simp
qed


section \<open>The order of a claim\<close>

lemma db_get_insert:
  "db_get (s\<lparr>messages := messages s @ [Some doc]\<rparr>) i =
     (if i = length (messages s) then Some doc else db_get s i)"
  by (auto simp: db_get_def nth_append)





lemma by_status_strictly_sorted: "sorted_wrt (<) (map fst (by_status st s))"
  using by_status_sorted [of st s] by_status_distinct [of st s]
  by (simp add: strict_sorted_iff)










section \<open>The checks of ack and nack\<close>

text \<open>
  Claim C5. For every id and token, \<^verbatim>\<open>ack\<close> and \<^verbatim>\<open>nack\<close> (of the component and of the library)
  make the same checks in the same order and fail with the state unchanged: with
  \<open>NotFound\<close> if the id does not resolve to an existing row, otherwise with \<open>InvalidState\<close>
  if the row is not claimed, otherwise with \<open>LeaseExpired\<close> if the token differs from the
  stored one. Only when the three checks pass does \<^verbatim>\<open>ack\<close> succeed, and then it deletes that
  row and touches nothing else. The handlers throw before they write: the transaction has
  nothing to undo.
\<close>

theorem ack_nack_checks:
  "(case lease_check (Option.bind (normalizeId messageId) (db_get s)) cid of
      Some f \<Rightarrow>
        (\<exists>e. ack messageId cid s = (Inl e, s) \<and> failure_of e = f)
        \<and> (\<exists>e. nack messageId cid err s = (Inl e, s) \<and> failure_of e = f)
    | None \<Rightarrow>
        (\<exists>i. normalizeId messageId = Some i \<and> ack messageId cid s = (Inr (), db_delete s i))
        \<and> (\<exists>r s'. nack messageId cid err s = (Inr r, s')))
   \<and> (case lease_check (db_get s i) cid of
      Some f \<Rightarrow>
        (\<exists>e. table_ack i cid s = (Inl e, s) \<and> failure_of e = f)
        \<and> (\<exists>e. table_nack i cid err s = (Inl e, s) \<and> failure_of e = f)
    | None \<Rightarrow>
        table_ack i cid s = (Inr (), db_delete s i)
        \<and> (\<exists>r s'. table_nack i cid err s = (Inr r, s')))
   \<and> ack messageId cid s = ack_handler messageId cid s
   \<and> nack messageId cid err s = nack_handler messageId cid err s
   \<and> table_ack i cid s = table_ack_handler i cid s
   \<and> table_nack i cid err s = table_nack_handler i cid err s
   \<and> (\<forall>j. db_get (db_delete s i) j = (if j = i then None else db_get s j))
   \<and> scheduled (db_delete s i) = scheduled s \<and> draws (db_delete s i) = draws s"
proof (intro conjI)
  show "case lease_check (Option.bind (normalizeId messageId) (db_get s)) cid of
      Some f \<Rightarrow>
        (\<exists>e. ack messageId cid s = (Inl e, s) \<and> failure_of e = f)
        \<and> (\<exists>e. nack messageId cid err s = (Inl e, s) \<and> failure_of e = f)
    | None \<Rightarrow>
        (\<exists>i. normalizeId messageId = Some i \<and> ack messageId cid s = (Inr (), db_delete s i))
        \<and> (\<exists>r s'. nack messageId cid err s = (Inr r, s'))"
    by (cases messageId)
       (auto simp: lease_check_def ack_eq_handler nack_eq_handler ack_handler_def
          nack_handler_def split: option.splits)
  show "case lease_check (db_get s i) cid of
      Some f \<Rightarrow>
        (\<exists>e. table_ack i cid s = (Inl e, s) \<and> failure_of e = f)
        \<and> (\<exists>e. table_nack i cid err s = (Inl e, s) \<and> failure_of e = f)
    | None \<Rightarrow>
        table_ack i cid s = (Inr (), db_delete s i)
        \<and> (\<exists>r s'. table_nack i cid err s = (Inr r, s'))"
    by (auto simp: lease_check_def table_ack_eq_handler table_nack_eq_handler
          table_ack_handler_def table_nack_handler_def split: option.splits)
qed (simp_all add: ack_eq_handler nack_eq_handler table_ack_eq_handler table_nack_eq_handler
       db_get_delete)

theorem ack_nack_checks_witness:
  "(\<exists>e. ack (IdOf 5) ''abcdefghijklmnop''
          (snd (run (\<lambda>_. True) (\<lambda>k. k)
             [Publish (''A'', None, None), Publish (''B'', None, None), Claim (Some 1)]
             empty_state))
        = (Inl e, snd (run (\<lambda>_. True) (\<lambda>k. k)
             [Publish (''A'', None, None), Publish (''B'', None, None), Claim (Some 1)]
             empty_state))
        \<and> failure_of e = NotFound)
   \<and> (\<exists>e. nack (IdOf 1) ''abcdefghijklmnop'' None
          (snd (run (\<lambda>_. True) (\<lambda>k. k)
             [Publish (''A'', None, None), Publish (''B'', None, None), Claim (Some 1)]
             empty_state))
        = (Inl e, snd (run (\<lambda>_. True) (\<lambda>k. k)
             [Publish (''A'', None, None), Publish (''B'', None, None), Claim (Some 1)]
             empty_state))
        \<and> failure_of e = InvalidState)
   \<and> (\<exists>e. ack (IdOf 0) ''wrong-claim-id''
          (snd (run (\<lambda>_. True) (\<lambda>k. k)
             [Publish (''A'', None, None), Publish (''B'', None, None), Claim (Some 1)]
             empty_state))
        = (Inl e, snd (run (\<lambda>_. True) (\<lambda>k. k)
             [Publish (''A'', None, None), Publish (''B'', None, None), Claim (Some 1)]
             empty_state))
        \<and> failure_of e = LeaseExpired)
   \<and> ack (IdOf 0) ''abcdefghijklmnop''
          (snd (run (\<lambda>_. True) (\<lambda>k. k)
             [Publish (''A'', None, None), Publish (''B'', None, None), Claim (Some 1)]
             empty_state))
        = (Inr (), db_delete (snd (run (\<lambda>_. True) (\<lambda>k. k)
             [Publish (''A'', None, None), Publish (''B'', None, None), Claim (Some 1)]
             empty_state)) 0)"
proof -
  let ?s = "snd (run (\<lambda>_. True) (\<lambda>k. k)
             [Publish (''A'', None, None), Publish (''B'', None, None), Claim (Some 1)]
             empty_state) :: string mq_state"
  have a: "lease_check (Option.bind (normalizeId (IdOf 5)) (db_get ?s)) ''abcdefghijklmnop''
      = Some NotFound"
    by code_simp
  have b: "lease_check (Option.bind (normalizeId (IdOf 1)) (db_get ?s)) ''abcdefghijklmnop''
      = Some InvalidState"
    by code_simp
  have c: "lease_check (Option.bind (normalizeId (IdOf 0)) (db_get ?s)) ''wrong-claim-id''
      = Some LeaseExpired"
    by code_simp
  have d: "lease_check (Option.bind (normalizeId (IdOf 0)) (db_get ?s)) ''abcdefghijklmnop''
      = None"
    by code_simp
  from ack_nack_checks [where messageId = "IdOf 5" and s = ?s and cid = "''abcdefghijklmnop''" and err = None,
      THEN conjunct1]
  have 1: "\<exists>e. ack (IdOf 5) ''abcdefghijklmnop'' ?s = (Inl e, ?s) \<and> failure_of e = NotFound"
    by (simp only: a option.case)
  from ack_nack_checks [where messageId = "IdOf 1" and s = ?s and cid = "''abcdefghijklmnop''" and err = None,
      THEN conjunct1]
  have 2: "\<exists>e. nack (IdOf 1) ''abcdefghijklmnop'' None ?s = (Inl e, ?s)
      \<and> failure_of e = InvalidState"
    by (simp only: b option.case)
  from ack_nack_checks [where messageId = "IdOf 0" and s = ?s and cid = "''wrong-claim-id''" and err = None,
      THEN conjunct1]
  have 3: "\<exists>e. ack (IdOf 0) ''wrong-claim-id'' ?s = (Inl e, ?s) \<and> failure_of e = LeaseExpired"
    by (simp only: c option.case)
  from ack_nack_checks [where messageId = "IdOf 0" and s = ?s and cid = "''abcdefghijklmnop''" and err = None,
      THEN conjunct1]
  have "\<exists>i. normalizeId (IdOf 0) = Some i
      \<and> ack (IdOf 0) ''abcdefghijklmnop'' ?s = (Inr (), db_delete ?s i)"
    by (simp only: d option.case)
  then obtain i where "normalizeId (IdOf 0) = Some i"
    and i: "ack (IdOf 0) ''abcdefghijklmnop'' ?s = (Inr (), db_delete ?s i)"
    by (elim exE conjE)
  then have "i = 0" by (simp only: normalizeId.simps option.inject)
  with i have 4: "ack (IdOf 0) ''abcdefghijklmnop'' ?s = (Inr (), db_delete ?s 0)"
    by (simp only:)
  from 1 2 3 4 show ?thesis by (intro conjI)
qed

section \<open>What a nack does\<close>

lemma exhaustion_scenario:
  "0 \<le> (case vt of None \<Rightarrow> 30000 | Some t \<Rightarrow> t) \<Longrightarrow>
   run (\<lambda>_. True) rnd
     [Publish (p, Some 3, vt), Claim (Some 1), Nack (IdOf 0) (generateClaimId rnd 0) e1,
      Claim (Some 1), Nack (IdOf 0) (generateClaimId rnd 16) e2,
      Claim (Some 1), Nack (IdOf 0) (generateClaimId rnd 32) e3] empty_state
   = ([Inr (PublishedId (IdOf 0)),
       Inr (ClaimedMessages [\<lparr>cm_id = IdOf 0, cm_claimId = generateClaimId rnd 0,
                               cm_payload = p, cm_attempts = 1\<rparr>]),
       Inr (Nacked None),
       Inr (ClaimedMessages [\<lparr>cm_id = IdOf 0, cm_claimId = generateClaimId rnd 16,
                               cm_payload = p, cm_attempts = 2\<rparr>]),
       Inr (Nacked None),
       Inr (ClaimedMessages [\<lparr>cm_id = IdOf 0, cm_claimId = generateClaimId rnd 32,
                               cm_payload = p, cm_attempts = 3\<rparr>]),
       Inr (Nacked (Some \<lparr>ex_payload = p, ex_attempts = 3,
                           ex_error = (case e3 of None \<Rightarrow> ''Max attempts exceeded''
                                       | Some e \<Rightarrow> e)\<rparr>))],
      \<lparr>messages = [None],
       scheduled = [(case vt of None \<Rightarrow> 30000 | Some t \<Rightarrow> t, IdOf 0, generateClaimId rnd 0),
                    (case vt of None \<Rightarrow> 30000 | Some t \<Rightarrow> t, IdOf 0, generateClaimId rnd 16),
                    (case vt of None \<Rightarrow> 30000 | Some t \<Rightarrow> t, IdOf 0, generateClaimId rnd 32)],
       draws = 48\<rparr>)"
  by (simp add: empty_state_def publish_def mutation_def publish_handler_def db_insert_def
      replying_def claim_as_loop by_status_def documents_def db_get_def new_message_def
      lease_message_def db_patch_def db_delete_def Let_def nack_eq_handler nack_handler_def
      schedulable_def)


text \<open>
  Claim C1. For a row in status claimed whose stored claim id is the supplied token:
  if attempts < maxAttempts, \<^verbatim>\<open>nack\<close> patches the row to pending with the claim id cleared
  and returns null; if attempts \<ge> maxAttempts, \<^verbatim>\<open>nack\<close> deletes the row and returns the
  exhausted result with the payload, the attempts and the error; no other row changes.
  A message published with maxAttempts 3, claimed and nacked twice (each nack returning
  null), then claimed a third time and nacked, yields the exhausted result with attempts
  3 and the original payload, and no pending row is left (the visibility timeout being one
  the scheduler accepts: not negative).
\<close>

theorem nack_retries_or_exhausts:
  "(db_get s i = Some msg \<and> status msg = Claimed \<and> claimId msg = Some cid \<longrightarrow>
      (attempts msg < maxAttempts msg \<longrightarrow>
         nack (IdOf i) cid err s
           = (Inr None, db_patch s i (\<lambda>m. m\<lparr>status := Pending, claimId := None\<rparr>))
         \<and> table_nack i cid err s
           = (Inr None, db_patch s i (\<lambda>m. m\<lparr>status := Pending, claimId := None\<rparr>))
         \<and> db_get (db_patch s i (\<lambda>m. m\<lparr>status := Pending, claimId := None\<rparr>)) i
           = Some (msg\<lparr>status := Pending, claimId := None\<rparr>))
      \<and> (attempts msg \<ge> maxAttempts msg \<longrightarrow>
         nack (IdOf i) cid err s
           = (Inr (Some \<lparr>ex_payload = payload msg, ex_attempts = attempts msg,
                          ex_error = (case err of None \<Rightarrow> ''Max attempts exceeded''
                                      | Some e \<Rightarrow> e)\<rparr>),
              db_delete s i)
         \<and> table_nack i cid err s
           = (Inr (Some \<lparr>ex_payload = payload msg, ex_attempts = attempts msg,
                          ex_error = (case err of None \<Rightarrow> [] | Some e \<Rightarrow> e)\<rparr>),
              db_delete s i)
         \<and> db_get (db_delete s i) i = None)
      \<and> (\<forall>j. j \<noteq> i \<longrightarrow>
            db_get (db_patch s i (\<lambda>m. m\<lparr>status := Pending, claimId := None\<rparr>)) j = db_get s j
            \<and> db_get (db_delete s i) j = db_get s j))
   \<and> (0 \<le> (case vt of None \<Rightarrow> 30000 | Some t \<Rightarrow> t) \<longrightarrow>
     run (\<lambda>_. True) rnd
       [Publish (p, Some 3, vt), Claim (Some 1), Nack (IdOf 0) (generateClaimId rnd 0) e1,
        Claim (Some 1), Nack (IdOf 0) (generateClaimId rnd 16) e2,
        Claim (Some 1), Nack (IdOf 0) (generateClaimId rnd 32) e3] empty_state
     = ([Inr (PublishedId (IdOf 0)),
         Inr (ClaimedMessages [\<lparr>cm_id = IdOf 0, cm_claimId = generateClaimId rnd 0,
                                 cm_payload = p, cm_attempts = 1\<rparr>]),
         Inr (Nacked None),
         Inr (ClaimedMessages [\<lparr>cm_id = IdOf 0, cm_claimId = generateClaimId rnd 16,
                                 cm_payload = p, cm_attempts = 2\<rparr>]),
         Inr (Nacked None),
         Inr (ClaimedMessages [\<lparr>cm_id = IdOf 0, cm_claimId = generateClaimId rnd 32,
                                 cm_payload = p, cm_attempts = 3\<rparr>]),
         Inr (Nacked (Some \<lparr>ex_payload = p, ex_attempts = 3,
                             ex_error = (case e3 of None \<Rightarrow> ''Max attempts exceeded''
                                         | Some e \<Rightarrow> e)\<rparr>))],
        \<lparr>messages = [None],
         scheduled = [(case vt of None \<Rightarrow> 30000 | Some t \<Rightarrow> t, IdOf 0, generateClaimId rnd 0),
                      (case vt of None \<Rightarrow> 30000 | Some t \<Rightarrow> t, IdOf 0, generateClaimId rnd 16),
                      (case vt of None \<Rightarrow> 30000 | Some t \<Rightarrow> t, IdOf 0, generateClaimId rnd 32)],
         draws = 48\<rparr>))
   \<and> \<not> peek \<lparr>messages = [None] :: 'p message option list,
               scheduled = [(case vt of None \<Rightarrow> 30000 | Some t \<Rightarrow> t, IdOf 0, generateClaimId rnd 0),
                      (case vt of None \<Rightarrow> 30000 | Some t \<Rightarrow> t, IdOf 0, generateClaimId rnd 16),
                      (case vt of None \<Rightarrow> 30000 | Some t \<Rightarrow> t, IdOf 0, generateClaimId rnd 32)],
               draws = 48\<rparr>"
  (is "?general \<and> ?scenario \<and> ?drained")
proof (intro conjI)
  show ?general
    by (auto simp: nack_eq_handler nack_handler_def table_nack_eq_handler table_nack_handler_def
        db_get_patch db_get_delete)
  show ?scenario
    by (rule impI) (rule exhaustion_scenario)
  show ?drained
    by (simp add: peek_def by_status_def documents_def db_get_def)
qed


theorem nack_retries_or_exhausts_witness:
  "nack (IdOf 0) ''abcdefghijklmnop'' None
      (snd (run (\<lambda>_. True) (\<lambda>k. k) [Publish (''A'', None, None), Claim (Some 1)] empty_state))
     = (Inr None,
        db_patch
          (snd (run (\<lambda>_. True) (\<lambda>k. k) [Publish (''A'', None, None), Claim (Some 1)] empty_state))
          0 (\<lambda>m. m\<lparr>status := Pending, claimId := None\<rparr>))
   \<and> nack (IdOf 0) ''abcdefghijklmnop'' (Some ''boom'')
      (snd (run (\<lambda>_. True) (\<lambda>k. k) [Publish (''A'', Some 1, None), Claim (Some 1)] empty_state))
     = (Inr (Some \<lparr>ex_payload = ''A'', ex_attempts = 1, ex_error = ''boom''\<rparr>),
        db_delete
          (snd (run (\<lambda>_. True) (\<lambda>k. k) [Publish (''A'', Some 1, None), Claim (Some 1)] empty_state))
          0)
   \<and> run (\<lambda>_. True) (\<lambda>k. k)
       [Publish (''A'', Some 3, None), Claim (Some 1), Nack (IdOf 0) ''abcdefghijklmnop'' None,
        Claim (Some 1), Nack (IdOf 0) ''qrstuvwxyz012345'' None,
        Claim (Some 1), Nack (IdOf 0) ''6789abcdefghijkl'' (Some ''boom'')] empty_state
     = ([Inr (PublishedId (IdOf 0)),
         Inr (ClaimedMessages [\<lparr>cm_id = IdOf 0, cm_claimId = ''abcdefghijklmnop'',
                                 cm_payload = ''A'', cm_attempts = 1\<rparr>]),
         Inr (Nacked None),
         Inr (ClaimedMessages [\<lparr>cm_id = IdOf 0, cm_claimId = ''qrstuvwxyz012345'',
                                 cm_payload = ''A'', cm_attempts = 2\<rparr>]),
         Inr (Nacked None),
         Inr (ClaimedMessages [\<lparr>cm_id = IdOf 0, cm_claimId = ''6789abcdefghijkl'',
                                 cm_payload = ''A'', cm_attempts = 3\<rparr>]),
         Inr (Nacked (Some \<lparr>ex_payload = ''A'', ex_attempts = 3, ex_error = ''boom''\<rparr>))],
        \<lparr>messages = [None],
         scheduled = [(30000, IdOf 0, ''abcdefghijklmnop''), (30000, IdOf 0, ''qrstuvwxyz012345''),
                      (30000, IdOf 0, ''6789abcdefghijkl'')],
         draws = 48\<rparr>)"
proof (intro conjI)
  let ?s = "snd (run (\<lambda>_. True) (\<lambda>k. k) [Publish (''A'', None, None), Claim (Some 1)] empty_state)
    :: string mq_state"
  let ?m = "\<lparr>payload = ''A'', status = Claimed, attempts = 1, maxAttempts = 3,
             visibilityTimeoutMs = 30000, claimId = Some ''abcdefghijklmnop''\<rparr>"
  have h: "db_get ?s 0 = Some ?m \<and> status ?m = Claimed \<and> claimId ?m = Some ''abcdefghijklmnop''"
    by code_simp
  have r: "attempts ?m < maxAttempts ?m" by simp
  from nack_retries_or_exhausts [where s = ?s and i = 0 and msg = ?m
      and cid = "''abcdefghijklmnop''" and err = None,
      THEN conjunct1, THEN mp, OF h, THEN conjunct1, THEN mp, OF r, THEN conjunct1]
  show "nack (IdOf 0) ''abcdefghijklmnop'' None ?s
     = (Inr None, db_patch ?s 0 (\<lambda>m. m\<lparr>status := Pending, claimId := None\<rparr>))" .
next
  let ?s = "snd (run (\<lambda>_. True) (\<lambda>k. k) [Publish (''A'', Some 1, None), Claim (Some 1)] empty_state)
    :: string mq_state"
  let ?m = "\<lparr>payload = ''A'', status = Claimed, attempts = 1, maxAttempts = 1,
             visibilityTimeoutMs = 30000, claimId = Some ''abcdefghijklmnop''\<rparr>"
  have h: "db_get ?s 0 = Some ?m \<and> status ?m = Claimed \<and> claimId ?m = Some ''abcdefghijklmnop''"
    by code_simp
  have r: "maxAttempts ?m \<le> attempts ?m" by simp
  from nack_retries_or_exhausts [where s = ?s and i = 0 and msg = ?m
      and cid = "''abcdefghijklmnop''" and err = "Some ''boom''",
      THEN conjunct1, THEN mp, OF h, THEN conjunct2, THEN conjunct1, THEN mp, OF r, THEN conjunct1]
  have "nack (IdOf 0) ''abcdefghijklmnop'' (Some ''boom'') ?s
     = (Inr (Some \<lparr>ex_payload = payload ?m, ex_attempts = attempts ?m,
                    ex_error = (case Some ''boom'' of None \<Rightarrow> ''Max attempts exceeded''
                                | Some e \<Rightarrow> e)\<rparr>),
        db_delete ?s 0)" .
  then show "nack (IdOf 0) ''abcdefghijklmnop'' (Some ''boom'') ?s
     = (Inr (Some \<lparr>ex_payload = ''A'', ex_attempts = 1, ex_error = ''boom''\<rparr>), db_delete ?s 0)"
    by (simp only: option.case message.simps)
next
  have t: "generateClaimId (\<lambda>k. k) 0 = ''abcdefghijklmnop''"
    "generateClaimId (\<lambda>k. k) 16 = ''qrstuvwxyz012345''"
    "generateClaimId (\<lambda>k. k) 32 = ''6789abcdefghijkl''"
    by code_simp+
  have v: "0 \<le> (case None :: int option of None \<Rightarrow> 30000 | Some t \<Rightarrow> t)"
    by simp
  from nack_retries_or_exhausts [where rnd = "\<lambda>k. k" and p = "''A''" and vt = None
      and ?e1.0 = None and ?e2.0 = None and ?e3.0 = "Some ''boom''",
      THEN conjunct2, THEN conjunct1, THEN mp, OF v]
  show "run (\<lambda>_. True) (\<lambda>k. k)
       [Publish (''A'', Some 3, None), Claim (Some 1), Nack (IdOf 0) ''abcdefghijklmnop'' None,
        Claim (Some 1), Nack (IdOf 0) ''qrstuvwxyz012345'' None,
        Claim (Some 1), Nack (IdOf 0) ''6789abcdefghijkl'' (Some ''boom'')] empty_state
     = ([Inr (PublishedId (IdOf 0)),
         Inr (ClaimedMessages [\<lparr>cm_id = IdOf 0, cm_claimId = ''abcdefghijklmnop'',
                                 cm_payload = ''A'', cm_attempts = 1\<rparr>]),
         Inr (Nacked None),
         Inr (ClaimedMessages [\<lparr>cm_id = IdOf 0, cm_claimId = ''qrstuvwxyz012345'',
                                 cm_payload = ''A'', cm_attempts = 2\<rparr>]),
         Inr (Nacked None),
         Inr (ClaimedMessages [\<lparr>cm_id = IdOf 0, cm_claimId = ''6789abcdefghijkl'',
                                 cm_payload = ''A'', cm_attempts = 3\<rparr>]),
         Inr (Nacked (Some \<lparr>ex_payload = ''A'', ex_attempts = 3, ex_error = ''boom''\<rparr>))],
        \<lparr>messages = [None],
         scheduled = [(30000, IdOf 0, ''abcdefghijklmnop''), (30000, IdOf 0, ''qrstuvwxyz012345''),
                      (30000, IdOf 0, ''6789abcdefghijkl'')],
         draws = 48\<rparr>)"
    by (simp only: t option.case)
qed

section \<open>The reclaim on timeout\<close>

lemma reclaimStale_effect:
  "reclaimStale (IdOf i) cid s =
     (Inr (), if holds_lease s i cid
              then db_patch s i (\<lambda>m. m\<lparr>status := Pending, claimId := None\<rparr>) else s)"
  "reclaimStale (NotAnId x) cid s = (Inr (), s)"
  "table_reclaimStale i cid s =
     (Inr (), if holds_lease s i cid
              then db_patch s i (\<lambda>m. m\<lparr>status := Pending, claimId := None\<rparr>) else s)"
  by (auto simp: reclaimStale_eq_handler reclaimStale_handler_def table_reclaimStale_eq_handler
      table_reclaimStale_handler_def holds_lease_def split: option.splits)

lemma reclaimStale_keeps:
  "(db_get (snd (reclaimStale messageId cid s)) j = None) = (db_get s j = None)"
  "db_get s j = Some m \<Longrightarrow>
     \<exists>m'. db_get (snd (reclaimStale messageId cid s)) j = Some m'
        \<and> attempts m' = attempts m \<and> maxAttempts m' = maxAttempts m \<and> payload m' = payload m
        \<and> visibilityTimeoutMs m' = visibilityTimeoutMs m"
  by (cases messageId; auto simp: reclaimStale_effect db_get_patch)+

lemma table_reclaimStale_is_reclaimStale:
  "table_reclaimStale i cid s = reclaimStale (IdOf i) cid s"
  by (simp add: reclaimStale_effect)

lemma claim_then_reclaim:
  assumes "lease_loop gen (take n (by_status Pending s)) [] s = (claimed, s1)"
    and "c \<in> set claimed"
  shows "\<exists>j msg. cm_id c = IdOf j \<and> db_get s j = Some msg \<and> status msg = Pending
     \<and> cm_attempts c = attempts msg + 1
     \<and> db_get (snd (reclaimStale (cm_id c) (cm_claimId c) s1)) j
         = Some (msg\<lparr>status := Pending, attempts := attempts msg + 1, claimId := None\<rparr>)"
proof -
  let ?pending = "take n (by_status Pending s)"
  have l2: "list_all2 (leased s1) ?pending claimed"
  proof (rule lease_loop_outcome(2) [OF pending_taken(1) _ assms(1)])
    fix j msg assume "(j, msg) \<in> set ?pending"
    from pending_taken(2) [OF this] show "db_get s j = Some msg" ..
  qed
  from assms(2) obtain k where k: "k < length claimed" "claimed ! k = c"
    by (auto simp: in_set_conv_nth)
  from list_all2_nthD2 [OF l2 k(1)] k(2) have ld: "leased s1 (?pending ! k) c"
    by simp
  obtain j msg where jm: "?pending ! k = (j, msg)" by (cases "?pending ! k")
  from k(1) list_all2_lengthD [OF l2] have "(j, msg) \<in> set ?pending"
    unfolding jm [symmetric] by (intro nth_mem) simp
  from pending_taken(2) [OF this] have g: "db_get s j = Some msg" "status msg = Pending"
    by simp_all
  from ld have c: "cm_id c = IdOf j" "cm_attempts c = attempts msg + 1"
    "db_get s1 j = Some (msg\<lparr>status := Claimed, attempts := attempts msg + 1,
                             claimId := Some (cm_claimId c)\<rparr>)"
    by (simp_all add: leased_def jm)
  then have "holds_lease s1 j (cm_claimId c)"
    by (simp add: holds_lease_def)
  with c have "db_get (snd (reclaimStale (cm_id c) (cm_claimId c) s1)) j
         = Some (msg\<lparr>status := Pending, attempts := attempts msg + 1, claimId := None\<rparr>)"
    by (simp add: reclaimStale_effect db_get_patch)
  with g c show ?thesis by blast
qed


text \<open>
  Claim C3. \<^verbatim>\<open>reclaimStale(id, claimId)\<close> (of the component and of the library) leaves the
  state as it is when the id is no id, the row is absent, the row is not claimed or the
  stored claim id differs from the token; otherwise it patches the row to pending with
  the claim id cleared. It never deletes a row and never looks at the attempts: every
  row keeps its attempts, its maxAttempts and its payload. A row claimed and then
  reclaimed by its own callback is pending again with the attempts the claim set: one
  more than before the claim, whatever maxAttempts is.
\<close>

theorem reclaimStale_returns_to_pending:
  "reclaimStale (NotAnId x) cid s = (Inr (), s)
   \<and> reclaimStale (IdOf i) cid s
       = (Inr (), if holds_lease s i cid
                  then db_patch s i (\<lambda>m. m\<lparr>status := Pending, claimId := None\<rparr>) else s)
   \<and> table_reclaimStale i cid s
       = (Inr (), if holds_lease s i cid
                  then db_patch s i (\<lambda>m. m\<lparr>status := Pending, claimId := None\<rparr>) else s)
   \<and> holds_lease s i cid
       = (\<exists>msg. db_get s i = Some msg \<and> status msg = Claimed \<and> claimId msg = Some cid)
   \<and> (\<forall>j. db_get (db_patch s i (\<lambda>m. m\<lparr>status := Pending, claimId := None\<rparr>)) j
          = (if j = i then map_option (\<lambda>m. m\<lparr>status := Pending, claimId := None\<rparr>) (db_get s i)
             else db_get s j))
   \<and> (\<forall>j. (db_get (snd (reclaimStale messageId cid s)) j = None) = (db_get s j = None))
   \<and> (\<forall>j m. db_get s j = Some m \<longrightarrow>
         (\<exists>m'. db_get (snd (reclaimStale messageId cid s)) j = Some m'
            \<and> attempts m' = attempts m \<and> maxAttempts m' = maxAttempts m
            \<and> payload m' = payload m \<and> visibilityTimeoutMs m' = visibilityTimeoutMs m))
   \<and> (\<forall>claimed s1 c. claim rnd limit_arg s = (Inr claimed, s1) \<and> c \<in> set claimed \<longrightarrow>
         (\<exists>j msg. cm_id c = IdOf j \<and> db_get s j = Some msg \<and> status msg = Pending
            \<and> cm_attempts c = attempts msg + 1
            \<and> db_get (snd (reclaimStale (cm_id c) (cm_claimId c) s1)) j
                = Some (msg\<lparr>status := Pending, attempts := attempts msg + 1,
                            claimId := None\<rparr>)))"
  (is "?malformed \<and> ?component \<and> ?library \<and> ?lease \<and> ?patch \<and> ?kept \<and> ?same \<and> ?timeout")
proof (intro conjI)
  show ?malformed ?component ?library
    by (simp_all add: reclaimStale_effect)
  show ?lease
    by (auto simp: holds_lease_def split: option.splits)
  show ?patch
    by (simp add: db_get_patch)
  show ?kept
    by (simp add: reclaimStale_keeps(1))
  show ?same
    using reclaimStale_keeps(2) by blast
  show ?timeout
  proof (intro allI impI)
    fix claimed s1 c
    assume a: "claim rnd limit_arg s = (Inr claimed, s1) \<and> c \<in> set claimed"
    let ?n = "case limit_arg of None \<Rightarrow> 1 | Some n \<Rightarrow> n"
    from a have "lease_loop (generateClaimId rnd) (take ?n (by_status Pending s)) [] s
        = (claimed, s1)"
      by (simp add: claim_as_loop prod_eq_iff split: if_splits)
    from claim_then_reclaim [OF this] a
    show "\<exists>j msg. cm_id c = IdOf j \<and> db_get s j = Some msg \<and> status msg = Pending
            \<and> cm_attempts c = attempts msg + 1
            \<and> db_get (snd (reclaimStale (cm_id c) (cm_claimId c) s1)) j
                = Some (msg\<lparr>status := Pending, attempts := attempts msg + 1,
                            claimId := None\<rparr>)"
      by simp
  qed
qed

theorem reclaimStale_returns_to_pending_witness:
  "db_get (snd (reclaimStale (IdOf 0) ''6789abcdefghijkl''
      (snd (run (\<lambda>_. True) (\<lambda>k. k)
         [Publish (''A'', None, None),
          Claim (Some 1), Nack (IdOf 0) ''abcdefghijklmnop'' None,
          Claim (Some 1), Nack (IdOf 0) ''qrstuvwxyz012345'' None,
          Claim (Some 1)] empty_state)))) 0
     = Some \<lparr>payload = ''A'', status = Pending, attempts = 3, maxAttempts = 3,
             visibilityTimeoutMs = 30000, claimId = None\<rparr>"
proof -
  let ?s = "snd (run (\<lambda>_. True) (\<lambda>k. k)
         [Publish (''A'', None, None),
          Claim (Some 1), Nack (IdOf 0) ''abcdefghijklmnop'' None,
          Claim (Some 1), Nack (IdOf 0) ''qrstuvwxyz012345'' None,
          Claim (Some 1)] empty_state) :: string mq_state"
  let ?f = "\<lambda>m :: string message. m\<lparr>status := Pending, claimId := None\<rparr>"
  note t = reclaimStale_returns_to_pending [where s = ?s and i = 0 and cid = "''6789abcdefghijkl''"]
  have h: "holds_lease ?s 0 ''6789abcdefghijkl''" by code_simp
  have g: "db_get ?s 0 = Some \<lparr>payload = ''A'', status = Claimed, attempts = 3, maxAttempts = 3,
             visibilityTimeoutMs = 30000, claimId = Some ''6789abcdefghijkl''\<rparr>"
    by code_simp
  from t [THEN conjunct2, THEN conjunct1] h
  have "snd (reclaimStale (IdOf 0) ''6789abcdefghijkl'' ?s) = db_patch ?s 0 ?f"
    by (simp only: if_True snd_conv)
  moreover from t [THEN conjunct2, THEN conjunct2, THEN conjunct2, THEN conjunct2, THEN conjunct1,
      THEN spec, of 0]
  have "db_get (db_patch ?s 0 ?f) 0 = map_option ?f (db_get ?s 0)"
    by (simp only: if_True refl)
  ultimately show ?thesis
    by (simp only: g option.map message.simps message.update_convs)
qed

section \<open>The invariant of the claim id\<close>

lemma lease_invariant_iff:
  "lease_invariant s \<longleftrightarrow> (\<forall>i m. db_get s i = Some m \<longrightarrow> claimId_iff_claimed m)"
proof
  assume inv: "lease_invariant s"
  show "\<forall>i m. db_get s i = Some m \<longrightarrow> claimId_iff_claimed m"
  proof (intro allI impI)
    fix i m assume g: "db_get s i = Some m"
    then have "i < length (messages s)" "messages s ! i = Some m"
      by (auto simp: db_get_def split: if_splits)
    then have "Some m \<in> set (messages s)" by (metis nth_mem)
    with inv show "claimId_iff_claimed m"
      by (auto simp: lease_invariant_def list_all_iff)
  qed
next
  assume a: "\<forall>i m. db_get s i = Some m \<longrightarrow> claimId_iff_claimed m"
  show "lease_invariant s"
    unfolding lease_invariant_def list_all_iff
  proof
    fix row assume "row \<in> set (messages s)"
    then obtain i where "i < length (messages s)" "messages s ! i = row"
      by (auto simp: in_set_conv_nth)
    then have "db_get s i = row" by (simp add: db_get_def)
    with a show "case row of None \<Rightarrow> True | Some m \<Rightarrow> claimId_iff_claimed m"
      by (cases row) auto
  qed
qed

lemma lease_invariant_empty: "lease_invariant empty_state"
  by (simp add: lease_invariant_def empty_state_def)

lemma lease_invariant_other [simp]:
  "lease_invariant (s\<lparr>draws := d\<rparr>) = lease_invariant s"
  "lease_invariant (s\<lparr>scheduled := x\<rparr>) = lease_invariant s"
  by (simp_all add: lease_invariant_def)

lemma lease_invariant_patch:
  "lease_invariant s \<Longrightarrow> (\<And>m. claimId_iff_claimed (f m)) \<Longrightarrow> lease_invariant (db_patch s i f)"
  by (auto simp: lease_invariant_iff db_get_patch split: if_splits)

lemma lease_invariant_delete: "lease_invariant s \<Longrightarrow> lease_invariant (db_delete s i)"
  by (auto simp: lease_invariant_iff db_get_delete split: if_splits)

lemma lease_invariant_insert:
  "lease_invariant s \<Longrightarrow> claimId_iff_claimed doc \<Longrightarrow>
   lease_invariant (snd (db_insert accepts s doc))"
  by (auto simp: db_insert_def lease_invariant_iff db_get_insert split: if_splits)

lemma new_message_ok: "claimId_iff_claimed (new_message a)"
  by (simp add: claimId_iff_claimed_def new_message_def split: prod.splits)

lemma table_new_message_ok: "claimId_iff_claimed (table_new_message options p)"
  by (simp add: claimId_iff_claimed_def table_new_message_def)

lemma mutation_preserves:
  "P s \<Longrightarrow> P (snd (handler s)) \<Longrightarrow> P (snd (mutation handler s))"
  by (cases "handler s") (auto simp: mutation_def split: sum.splits)

lemma lease_invariant_publishBatch_loop:
  "lease_invariant s \<Longrightarrow> lease_invariant (snd (publishBatch_loop accepts as ids s))"
proof (induction as arbitrary: ids s)
  case Nil
  then show ?case by simp
next
  case (Cons a as)
  from lease_invariant_insert [OF Cons.prems new_message_ok, of accepts a] Cons.IH
  show ?case
    by (cases "db_insert accepts s (new_message a)") (auto split: sum.splits)
qed

lemma lease_invariant_table_publishBatch_loop:
  "lease_invariant s \<Longrightarrow> lease_invariant (snd (table_publishBatch_loop accepts options ps ids s))"
proof (induction ps arbitrary: ids s)
  case Nil
  then show ?case by simp
next
  case (Cons p ps)
  from lease_invariant_insert [OF Cons.prems table_new_message_ok, of accepts options p] Cons.IH
  show ?case
    by (cases "db_insert accepts s (table_new_message options p)") (auto split: sum.splits)
qed

lemma lease_loop_preserves:
  assumes step: "\<And>i msg s. P s \<Longrightarrow> P (snd (lease_message gen i msg s))"
  shows "P s \<Longrightarrow> P (snd (lease_loop gen pending claimed s))"
proof (induction pending arbitrary: claimed s)
  case Nil
  then show ?case by simp
next
  case (Cons im pending)
  obtain i msg where im: "im = (i, msg)" by (cases im)
  show ?case
    unfolding im lease_loop_Cons
    by (rule Cons.IH) (rule step [OF Cons.prems])
qed

lemma claim_preserves:
  assumes step: "\<And>i msg s. P s \<Longrightarrow> P (snd (lease_message (generateClaimId rnd) i msg s))"
  shows "P s \<Longrightarrow> P (snd (claim rnd limit_arg s))"
  by (simp add: claim_as_loop lease_loop_preserves [where P = P, OF step])

lemma table_claim_preserves:
  assumes step: "\<And>i msg s. P s \<Longrightarrow> P (snd (lease_message (table_generateClaimId rnd) i msg s))"
  shows "P s \<Longrightarrow> P (snd (table_claim rnd filterConfig limit_arg s))"
  by (simp add: table_claim_as_loop lease_loop_preserves [where P = P, OF step])

lemma claimByIds_loop_preserves:
  assumes step: "\<And>i msg s. P s \<Longrightarrow> P (snd (lease_message (generateClaimId rnd) i msg s))"
  shows "P s \<Longrightarrow> claimByIds_loop rnd ids claimed s = (Inr result, s') \<Longrightarrow> P s'"
proof (induction ids arbitrary: claimed s)
  case Nil
  then show ?case by simp
next
  case (Cons messageId messageIds)
  show ?case
  proof (cases "\<exists>i msg. normalizeId messageId = Some i \<and> db_get s i = Some msg
      \<and> status msg = Pending")
    case False
    then have "claimByIds_loop rnd (messageId # messageIds) claimed s
        = claimByIds_loop rnd messageIds claimed s"
      by (auto split: option.splits)
    with Cons show ?thesis by simp
  next
    case True
    then obtain i msg where i: "normalizeId messageId = Some i" "db_get s i = Some msg"
      "status msg = Pending"
      by blast
    show ?thesis
    proof (cases "visibilityTimeoutMs msg < 0")
      case True
      from claim_message_fails [OF this, of rnd i s] i Cons.prems(2) show ?thesis
        by (cases "claim_message rnd i msg s") simp
    next
      case False
      with i have "claimByIds_loop rnd (messageId # messageIds) claimed s
          = claimByIds_loop rnd messageIds
              (claimed @ [fst (lease_message (generateClaimId rnd) i msg s)])
              (snd (lease_message (generateClaimId rnd) i msg s))"
        by (simp add: claim_message_lease)
      with Cons.IH [OF step [OF Cons.prems(1)]] Cons.prems(2) show ?thesis by simp
    qed
  qed
qed

lemma claimByIds_cases:
  "claimByIds rnd ids s =
     (case claimByIds_loop rnd ids [] s of
        (Inl e, s') \<Rightarrow> (Inl e, s)
      | (Inr claimed, s') \<Rightarrow> (Inr claimed, s'))"
  by (simp add: claimByIds_def claimByIds_handler_def mutation_def)

lemma claimByIds_preserves:
  assumes step: "\<And>i msg s. P s \<Longrightarrow> P (snd (lease_message (generateClaimId rnd) i msg s))"
  shows "P s \<Longrightarrow> P (snd (claimByIds rnd ids s))"
proof -
  assume p: "P s"
  obtain r s' where l: "claimByIds_loop rnd ids [] s = (r, s')"
    by (cases "claimByIds_loop rnd ids [] s")
  show ?thesis
  proof (cases r)
    case (Inl e)
    with l p show ?thesis by (simp add: claimByIds_cases)
  next
    case (Inr result)
    with l claimByIds_loop_preserves [where P = P, OF step p] show ?thesis
      by (simp add: claimByIds_cases)
  qed
qed

lemma lease_invariant_lease_message:
  "lease_invariant s \<Longrightarrow> lease_invariant (snd (lease_message gen i msg s))"
  by (simp add: lease_message_def Let_def lease_invariant_patch claimId_iff_claimed_def)

lemma lease_invariant_exec:
  "lease_invariant s \<Longrightarrow> lease_invariant (snd (exec accepts rnd op s))"
proof (cases op)
  case (Publish a)
  assume "lease_invariant s"
  then show ?thesis
    unfolding Publish exec.simps replying_def publish_def
    using lease_invariant_insert [of s "new_message a" accepts, OF _ new_message_ok]
    by (auto simp: mutation_def publish_handler_def split: prod.splits sum.splits)
next
  case (PublishBatch as)
  assume inv: "lease_invariant s"
  have "lease_invariant (snd (publishBatch accepts as s))"
    unfolding publishBatch_def
    by (rule mutation_preserves [where P = lease_invariant, OF inv])
       (simp add: publishBatch_handler_def lease_invariant_publishBatch_loop inv)
  then show ?thesis
    by (auto simp: PublishBatch replying_def split: prod.splits sum.splits)
next
  case (Claim limit_arg)
  assume inv: "lease_invariant s"
  have "lease_invariant (snd (claim rnd limit_arg s))"
    by (rule claim_preserves [where P = lease_invariant, OF lease_invariant_lease_message inv])
  then show ?thesis
    by (auto simp: Claim replying_def split: prod.splits sum.splits)
next
  case (ClaimByIds ids)
  assume inv: "lease_invariant s"
  have "lease_invariant (snd (claimByIds rnd ids s))"
    by (rule claimByIds_preserves [where P = lease_invariant,
          OF lease_invariant_lease_message inv])
  then show ?thesis
    by (auto simp: ClaimByIds replying_def split: prod.splits sum.splits)
next
  case (Ack messageId cid)
  assume inv: "lease_invariant s"
  then have "lease_invariant (snd (ack messageId cid s))"
    by (auto simp: ack_eq_handler ack_handler_def lease_invariant_delete split: option.splits)
  then show ?thesis
    by (auto simp: Ack replying_def split: prod.splits sum.splits)
next
  case (Nack messageId cid e)
  assume inv: "lease_invariant s"
  then have "lease_invariant (snd (nack messageId cid e s))"
    by (auto simp: nack_eq_handler nack_handler_def lease_invariant_delete
        lease_invariant_patch claimId_iff_claimed_def split: option.splits)
  then show ?thesis
    by (auto simp: Nack replying_def split: prod.splits sum.splits)
next
  case (ReclaimStale messageId cid)
  assume inv: "lease_invariant s"
  then have "lease_invariant (snd (reclaimStale messageId cid s))"
    by (auto simp: reclaimStale_eq_handler reclaimStale_handler_def
        lease_invariant_patch claimId_iff_claimed_def split: option.splits)
  then show ?thesis
    by (auto simp: ReclaimStale replying_def split: prod.splits sum.splits)
qed

lemma run_snd_Cons:
  "snd (run accepts rnd (op # ops) s) = snd (run accepts rnd ops (snd (exec accepts rnd op s)))"
  by (simp split: prod.splits)

lemma run_preserves:
  assumes step: "\<And>op s. P s \<Longrightarrow> P (snd (exec accepts rnd op s))"
  shows "P s \<Longrightarrow> P (snd (run accepts rnd ops s))"
proof (induction ops arbitrary: s)
  case Nil
  then show ?case by simp
next
  case (Cons op ops)
  show ?case
    unfolding run_snd_Cons by (rule Cons.IH) (rule step [OF Cons.prems])
qed

lemma lease_invariant_table:
  assumes inv: "lease_invariant s"
  shows "lease_invariant (snd (table_publish accepts options p s))"
    and "lease_invariant (snd (table_publishBatch accepts options ps s))"
    and "lease_invariant (snd (table_claim rnd filterConfig limit_arg s))"
    and "lease_invariant (snd (table_ack i cid s))"
    and "lease_invariant (snd (table_nack i cid e s))"
    and "lease_invariant (snd (table_reclaimStale i cid s))"
proof -
  show "lease_invariant (snd (table_publish accepts options p s))"
    unfolding table_publish_def
    by (rule mutation_preserves [where P = lease_invariant, OF inv])
       (simp add: table_publish_handler_def lease_invariant_insert inv table_new_message_ok)
  show "lease_invariant (snd (table_publishBatch accepts options ps s))"
    unfolding table_publishBatch_def
    by (rule mutation_preserves [where P = lease_invariant, OF inv])
       (simp add: table_publishBatch_handler_def lease_invariant_table_publishBatch_loop inv)
  show "lease_invariant (snd (table_claim rnd filterConfig limit_arg s))"
    by (rule table_claim_preserves [where P = lease_invariant,
          OF lease_invariant_lease_message inv])
  show "lease_invariant (snd (table_ack i cid s))"
    using inv
    by (auto simp: table_ack_eq_handler table_ack_handler_def lease_invariant_delete
        split: option.splits)
  show "lease_invariant (snd (table_nack i cid e s))"
    using inv
    by (auto simp: table_nack_eq_handler table_nack_handler_def lease_invariant_delete
        lease_invariant_patch claimId_iff_claimed_def split: option.splits)
  show "lease_invariant (snd (table_reclaimStale i cid s))"
    using inv
    by (auto simp: table_reclaimStale_eq_handler table_reclaimStale_handler_def
        lease_invariant_patch claimId_iff_claimed_def split: option.splits)
qed

text \<open>
  Claim C6. In every state reached from the empty table by any sequence of \<^verbatim>\<open>publish\<close>,
  \<^verbatim>\<open>publishBatch\<close>, \<^verbatim>\<open>claim\<close>, \<^verbatim>\<open>claimByIds\<close>, \<^verbatim>\<open>ack\<close>, \<^verbatim>\<open>nack\<close> and \<^verbatim>\<open>reclaimStale\<close>, whatever the
  random source and the faults of the store, every message row has a claim id if and only
  if its status is claimed. Every operation of the library keeps the invariant as well.
\<close>

theorem claimId_present_iff_claimed:
  "lease_invariant (snd (run accepts rnd ops empty_state))
   \<and> (\<forall>i m. db_get (snd (run accepts rnd ops empty_state)) i = Some m
         \<longrightarrow> (claimId m \<noteq> None) = (status m = Claimed))
   \<and> (lease_invariant s \<longrightarrow>
         lease_invariant (snd (table_publish accepts options p s))
       \<and> lease_invariant (snd (table_publishBatch accepts options ps s))
       \<and> lease_invariant (snd (table_claim rnd filterConfig limit_arg s))
       \<and> lease_invariant (snd (table_ack j cid s))
       \<and> lease_invariant (snd (table_nack j cid e s))
       \<and> lease_invariant (snd (table_reclaimStale j cid s)))"
proof (intro conjI impI)
  show inv: "lease_invariant (snd (run accepts rnd ops empty_state))"
    by (rule run_preserves [where P = lease_invariant, OF lease_invariant_exec
          lease_invariant_empty])
  then show "\<forall>i m. db_get (snd (run accepts rnd ops empty_state)) i = Some m
         \<longrightarrow> (claimId m \<noteq> None) = (status m = Claimed)"
    by (simp add: lease_invariant_iff claimId_iff_claimed_def)
qed (simp_all add: lease_invariant_table)

theorem claimId_present_iff_claimed_witness:
  "db_get (snd (run (\<lambda>_. True) (\<lambda>k. k)
       [Publish (''A'', None, None), Publish (''B'', None, None), Claim (Some 1)]
       empty_state)) 0
     = Some \<lparr>payload = ''A'', status = Claimed, attempts = 1, maxAttempts = 3,
             visibilityTimeoutMs = 30000, claimId = Some ''abcdefghijklmnop''\<rparr>
   \<and> db_get (snd (run (\<lambda>_. True) (\<lambda>k. k)
       [Publish (''A'', None, None), Publish (''B'', None, None), Claim (Some 1)]
       empty_state)) 1
     = Some \<lparr>payload = ''B'', status = Pending, attempts = 0, maxAttempts = 3,
             visibilityTimeoutMs = 30000, claimId = None\<rparr>
   \<and> lease_invariant (snd (run (\<lambda>_. True) (\<lambda>k. k)
       [Publish (''A'', None, None), Publish (''B'', None, None), Claim (Some 1)]
       (empty_state :: string mq_state)))"
proof (intro conjI)
  show "lease_invariant (snd (run (\<lambda>_. True) (\<lambda>k. k)
       [Publish (''A'', None, None), Publish (''B'', None, None), Claim (Some 1)]
       (empty_state :: string mq_state)))"
    by (rule claimId_present_iff_claimed [THEN conjunct1])
qed code_simp+

section \<open>Superseded tokens\<close>

lemma holds_lease_other [simp]:
  "holds_lease (s\<lparr>draws := d\<rparr>) i t = holds_lease s i t"
  "holds_lease (s\<lparr>scheduled := x\<rparr>) i t = holds_lease s i t"
  by (simp_all add: holds_lease_def)


















section \<open>Publishing a batch\<close>

lemma state_messages_same [simp]: "s\<lparr>messages := messages s\<rparr> = s"
  by (cases s) simp

lemma insert_loop_state:
  "snd (publishBatch_loop accepts as ids s)
     = s\<lparr>messages := messages s @ map (Some \<circ> new_message)
                                    (takeWhile (accepts \<circ> new_message) as)\<rparr>"
  by (induction as arbitrary: ids s) (simp_all add: db_insert_def)

lemma table_insert_loop_state:
  "snd (table_publishBatch_loop accepts options ps ids s)
     = s\<lparr>messages := messages s @ map (Some \<circ> table_new_message options)
                                    (takeWhile (accepts \<circ> table_new_message options) ps)\<rparr>"
  by (induction ps arbitrary: ids s) (simp_all add: db_insert_def)

lemma insert_loop_ids:
  "\<forall>a \<in> set as. accepts (new_message a) \<Longrightarrow>
   fst (publishBatch_loop accepts as ids s)
     = Inr (ids @ map IdOf [length (messages s)..<length (messages s) + length as])"
proof (induction as arbitrary: ids s)
  case Nil
  show ?case by simp
next
  case (Cons a as)
  have "[length (messages s)..<length (messages s) + length (a # as)]
      = length (messages s) # [Suc (length (messages s))..<Suc (length (messages s)) + length as]"
    by (subst upt_rec) simp
  with Cons show ?case
    by (simp add: db_insert_def)
qed

lemma table_insert_loop_ids:
  "\<forall>p \<in> set ps. accepts (table_new_message options p) \<Longrightarrow>
   fst (table_publishBatch_loop accepts options ps ids s)
     = Inr (ids @ [length (messages s)..<length (messages s) + length ps])"
proof (induction ps arbitrary: ids s)
  case Nil
  show ?case by simp
next
  case (Cons p ps)
  have "[length (messages s)..<length (messages s) + length (p # ps)]
      = length (messages s) # [Suc (length (messages s))..<Suc (length (messages s)) + length ps]"
    by (subst upt_rec) simp
  with Cons show ?case
    by (simp add: db_insert_def)
qed

lemma insert_loop_fails:
  "\<exists>a \<in> set as. \<not> accepts (new_message a) \<Longrightarrow>
   fst (publishBatch_loop accepts as ids s) = Inl InsertFailed"
  by (induction as arbitrary: ids s) (auto simp: db_insert_def)

lemma table_insert_loop_fails:
  "\<exists>p \<in> set ps. \<not> accepts (table_new_message options p) \<Longrightarrow>
   fst (table_publishBatch_loop accepts options ps ids s) = Inl InsertFailed"
  by (induction ps arbitrary: ids s) (auto simp: db_insert_def)

lemma takeWhile_all: "\<forall>x \<in> set xs. P x \<Longrightarrow> takeWhile P xs = xs"
  by (induction xs) simp_all

text \<open>
  Claim C9, amended. \<^verbatim>\<open>publishBatch\<close> (of the component and of the library) makes one insert
  per payload, in order, inside one mutation. When the store accepts every document it
  returns one id per payload, in order, and the table has the new documents at its end.
  When the store refuses a document the handler throws at that insert, the mutation
  fails, no id is returned and the table is as before the call: the inserts the handler
  made before the failure are discarded with it. The batch is a single transaction.
\<close>

theorem publishBatch_one_transaction:
  "((\<forall>a \<in> set as. accepts (new_message a)) \<longrightarrow>
       publishBatch accepts as s
         = (Inr (map IdOf [length (messages s)..<length (messages s) + length as]),
            s\<lparr>messages := messages s @ map (Some \<circ> new_message) as\<rparr>))
   \<and> ((\<exists>a \<in> set as. \<not> accepts (new_message a)) \<longrightarrow>
       publishBatch accepts as s = (Inl InsertFailed, s)
       \<and> publishBatch_handler accepts as s
           = (Inl InsertFailed,
              s\<lparr>messages := messages s @ map (Some \<circ> new_message)
                                             (takeWhile (accepts \<circ> new_message) as)\<rparr>))
   \<and> ((\<forall>p \<in> set ps. accepts (table_new_message options p)) \<longrightarrow>
       table_publishBatch accepts options ps s
         = (Inr [length (messages s)..<length (messages s) + length ps],
            s\<lparr>messages := messages s @ map (Some \<circ> table_new_message options) ps\<rparr>))
   \<and> ((\<exists>p \<in> set ps. \<not> accepts (table_new_message options p)) \<longrightarrow>
       table_publishBatch accepts options ps s = (Inl InsertFailed, s)
       \<and> table_publishBatch_handler accepts options ps s
           = (Inl InsertFailed,
              s\<lparr>messages := messages s @ map (Some \<circ> table_new_message options)
                                 (takeWhile (accepts \<circ> table_new_message options) ps)\<rparr>))"
  (is "?all \<and> ?some \<and> ?table_all \<and> ?table_some")
proof (intro conjI)
  show ?all
  proof
    assume a: "\<forall>a \<in> set as. accepts (new_message a)"
    then have "takeWhile (accepts \<circ> new_message) as = as"
      by (intro takeWhile_all) simp
    with insert_loop_ids [OF a, of "[]" s] insert_loop_state [of accepts as "[]" s]
    have "publishBatch_handler accepts as s
        = (Inr (map IdOf [length (messages s)..<length (messages s) + length as]),
           s\<lparr>messages := messages s @ map (Some \<circ> new_message) as\<rparr>)"
      by (simp add: publishBatch_handler_def prod_eq_iff)
    then show "publishBatch accepts as s
        = (Inr (map IdOf [length (messages s)..<length (messages s) + length as]),
           s\<lparr>messages := messages s @ map (Some \<circ> new_message) as\<rparr>)"
      unfolding publishBatch_def by (rule mutation_Inr)
  qed
  show ?some
  proof
    assume a: "\<exists>a \<in> set as. \<not> accepts (new_message a)"
    from insert_loop_fails [OF a, of "[]" s] insert_loop_state [of accepts as "[]" s]
    have h: "publishBatch_handler accepts as s
        = (Inl InsertFailed,
           s\<lparr>messages := messages s @ map (Some \<circ> new_message)
                                          (takeWhile (accepts \<circ> new_message) as)\<rparr>)"
      by (simp add: publishBatch_handler_def prod_eq_iff)
    then have "publishBatch accepts as s = (Inl InsertFailed, s)"
      unfolding publishBatch_def by (rule mutation_Inl)
    with h show "publishBatch accepts as s = (Inl InsertFailed, s)
       \<and> publishBatch_handler accepts as s
           = (Inl InsertFailed,
              s\<lparr>messages := messages s @ map (Some \<circ> new_message)
                                             (takeWhile (accepts \<circ> new_message) as)\<rparr>)"
      by simp
  qed
  show ?table_all
  proof
    assume a: "\<forall>p \<in> set ps. accepts (table_new_message options p)"
    then have "takeWhile (accepts \<circ> table_new_message options) ps = ps"
      by (intro takeWhile_all) simp
    with table_insert_loop_ids [OF a, of "[]" s]
      table_insert_loop_state [of accepts options ps "[]" s]
    have "table_publishBatch_handler accepts options ps s
        = (Inr [length (messages s)..<length (messages s) + length ps],
           s\<lparr>messages := messages s @ map (Some \<circ> table_new_message options) ps\<rparr>)"
      by (simp add: table_publishBatch_handler_def prod_eq_iff)
    then show "table_publishBatch accepts options ps s
        = (Inr [length (messages s)..<length (messages s) + length ps],
           s\<lparr>messages := messages s @ map (Some \<circ> table_new_message options) ps\<rparr>)"
      unfolding table_publishBatch_def by (rule mutation_Inr)
  qed
  show ?table_some
  proof
    assume a: "\<exists>p \<in> set ps. \<not> accepts (table_new_message options p)"
    from table_insert_loop_fails [OF a, of "[]" s]
      table_insert_loop_state [of accepts options ps "[]" s]
    have h: "table_publishBatch_handler accepts options ps s
        = (Inl InsertFailed,
           s\<lparr>messages := messages s @ map (Some \<circ> table_new_message options)
                              (takeWhile (accepts \<circ> table_new_message options) ps)\<rparr>)"
      by (simp add: table_publishBatch_handler_def prod_eq_iff)
    then have "table_publishBatch accepts options ps s = (Inl InsertFailed, s)"
      unfolding table_publishBatch_def by (rule mutation_Inl)
    with h show "table_publishBatch accepts options ps s = (Inl InsertFailed, s)
       \<and> table_publishBatch_handler accepts options ps s
           = (Inl InsertFailed,
              s\<lparr>messages := messages s @ map (Some \<circ> table_new_message options)
                                 (takeWhile (accepts \<circ> table_new_message options) ps)\<rparr>)"
      by simp
  qed
qed

theorem publishBatch_one_transaction_counterexample:
  "publishBatch (\<lambda>doc. payload doc \<noteq> ''too large'')
      [(''first'', None, None), (''too large'', None, None), (''third'', None, None)] empty_state
     = (Inl InsertFailed, empty_state)
   \<and> messages (snd (publishBatch (\<lambda>doc. payload doc \<noteq> ''too large'')
      [(''first'', None, None), (''too large'', None, None), (''third'', None, None)]
      empty_state)) = []
   \<and> publishBatch_handler (\<lambda>doc. payload doc \<noteq> ''too large'')
      [(''first'', None, None), (''too large'', None, None), (''third'', None, None)] empty_state
     = (Inl InsertFailed,
        \<lparr>messages = [Some (new_message (''first'', None, None))], scheduled = [], draws = 0\<rparr>)"
  by code_simp

theorem publishBatch_one_transaction_witness:
  "publishBatch (\<lambda>doc. payload doc \<noteq> ''too large'')
      [(''first'', None, None), (''second'', Some 5, None)] empty_state
     = (Inr [IdOf 0, IdOf 1],
        \<lparr>messages = [Some (new_message (''first'', None, None)),
                     Some (new_message (''second'', Some 5, None))],
         scheduled = [], draws = 0\<rparr>)
   \<and> publishBatch (\<lambda>doc. payload doc \<noteq> ''too large'')
      [(''first'', None, None), (''too large'', None, None)] empty_state
     = (Inl InsertFailed, empty_state)"
proof
  let ?accepts = "\<lambda>doc :: string message. payload doc \<noteq> ''too large''"
  let ?as = "[(''first'', None, None), (''second'', Some 5, None)]
    :: (string \<times> int option \<times> int option) list"
  have h: "\<forall>a \<in> set ?as. ?accepts (new_message a)" by (simp add: new_message_def)
  from publishBatch_one_transaction [where accepts = ?accepts and as = ?as
      and s = "empty_state :: string mq_state", THEN conjunct1, THEN mp, OF h]
  show "publishBatch ?accepts ?as empty_state
     = (Inr [IdOf 0, IdOf 1],
        \<lparr>messages = [Some (new_message (''first'', None, None)),
                     Some (new_message (''second'', Some 5, None))],
         scheduled = [], draws = 0\<rparr>)"
    by (simp add: empty_state_def upt_rec)
next
  let ?accepts = "\<lambda>doc :: string message. payload doc \<noteq> ''too large''"
  let ?as = "[(''first'', None, None), (''too large'', None, None)]
    :: (string \<times> int option \<times> int option) list"
  have h: "\<exists>a \<in> set ?as. \<not> ?accepts (new_message a)" by (simp add: new_message_def)
  from publishBatch_one_transaction [where accepts = ?accepts and as = ?as
      and s = "empty_state :: string mq_state", THEN conjunct2, THEN conjunct1, THEN mp, OF h,
      THEN conjunct1]
  show "publishBatch ?accepts ?as empty_state = (Inl InsertFailed, empty_state)" .
qed

section \<open>A batch whose handler fails\<close>





lemma process_individually_Cons:
  "process_individually c (msg # rest) w =
     (case process_message c msg w of
        (log, Some thrown, w') \<Rightarrow> (log, Some thrown, w')
      | (log, None, w') \<Rightarrow>
          (case process_individually c rest w' of
             (log', r, w'') \<Rightarrow> (log @ log', r, w'')))"
  by simp












end
